theory Spec2Isabelle
  imports Main
begin

section \<open>JavaScript strings\<close>

text \<open>
  A JavaScript string is modelled as a \<open>string\<close> (a list of \<open>char\<close>); one \<open>char\<close>
  stands for one UTF-16 code unit below 256.  The functions below are the methods of
  \<^verbatim>\<open>String.prototype\<close> that the converter calls.
\<close>

text \<open>White space as \<^verbatim>\<open>trim()\<close> and the regular expression class \<^verbatim>\<open>\s\<close> see it:
  TAB, LF, VT, FF, CR, SPACE and NBSP.\<close>

definition is_space :: "char \<Rightarrow> bool" where
  "is_space c \<longleftrightarrow>
     c = CHR 0x09 \<or> c = CHR 0x0A \<or> c = CHR 0x0B \<or> c = CHR 0x0C \<or> c = CHR 0x0D \<or>
     c = CHR '' '' \<or> c = CHR 0xA0"

text \<open>The class \<^verbatim>\<open>\d\<close>.\<close>

definition is_digit :: "char \<Rightarrow> bool" where
  "is_digit c \<longleftrightarrow> c \<in> set ''0123456789''"

definition trim :: "string \<Rightarrow> string" where
  "trim s = rev (dropWhile is_space (rev (dropWhile is_space s)))"

definition startsWith :: "string \<Rightarrow> string \<Rightarrow> bool" where
  "startsWith s p \<longleftrightarrow> take (length p) s = p"

definition endsWith :: "string \<Rightarrow> string \<Rightarrow> bool" where
  "endsWith s p \<longleftrightarrow> length p \<le> length s \<and> drop (length s - length p) s = p"

text \<open>\<^verbatim>\<open>s.substring(a, b)\<close>: both indices are clamped to the length and swapped when
  \<open>a > b\<close>.\<close>

definition substring :: "string \<Rightarrow> nat \<Rightarrow> nat \<Rightarrow> string" where
  "substring s a b =
     (let a' = min a (length s); b' = min b (length s)
      in take (max a' b' - min a' b') (drop (min a' b') s))"

text \<open>\<^verbatim>\<open>s.split('\n')\<close>: the empty string gives one empty line.\<close>

fun split_lines :: "string \<Rightarrow> string list" where
  "split_lines [] = [[]]"
| "split_lines (c # cs) =
     (if c = CHR 0x0A then [] # split_lines cs
      else (case split_lines cs of
              [] \<Rightarrow> [[c]]
            | l # ls \<Rightarrow> (c # l) # ls))"

text \<open>\<^verbatim>\<open>xs.join('\n')\<close>.\<close>

fun join_lines :: "string list \<Rightarrow> string" where
  "join_lines [] = []"
| "join_lines [x] = x"
| "join_lines (x # y # ys) = x @ CHR 0x0A # join_lines (y # ys)"

text \<open>\<^verbatim>\<open>s.lastIndexOf(p)\<close>; \<open>None\<close> is the result \<open>-1\<close>.\<close>

fun lastIndexOf_from :: "string \<Rightarrow> string \<Rightarrow> nat \<Rightarrow> nat option" where
  "lastIndexOf_from s p 0 = (if startsWith s p then Some 0 else None)"
| "lastIndexOf_from s p (Suc n) =
     (if startsWith (drop (Suc n) s) p then Some (Suc n) else lastIndexOf_from s p n)"

definition lastIndexOf :: "string \<Rightarrow> string \<Rightarrow> nat option" where
  "lastIndexOf s p = lastIndexOf_from s p (length s)"

text \<open>\<^verbatim>\<open>s.replace(p, r)\<close> with a string pattern: the first occurrence only.\<close>

fun replace_first :: "string \<Rightarrow> string \<Rightarrow> string \<Rightarrow> string" where
  "replace_first [] p r = (if p = [] then r else [])"
| "replace_first (c # cs) p r =
     (if startsWith (c # cs) p then r @ drop (length p) (c # cs)
      else c # replace_first cs p r)"

section \<open>Regular expressions\<close>

text \<open>
  The patterns of the source are a literal, one character class under a quantifier, and a
  literal again.  A quantified class is matched by backtracking as the engine does: the
  lazy quantifiers try the rest of the pattern (the continuation \<open>k\<close>) before taking one
  more character, the greedy ones after.  The result is the text the class consumed and
  whatever the continuation returned.
\<close>

fun lazy_star :: "(char \<Rightarrow> bool) \<Rightarrow> (string \<Rightarrow> 'a option) \<Rightarrow> string \<Rightarrow> (string \<times> 'a) option" where
  "lazy_star cls k [] = map_option (Pair []) (k [])"
| "lazy_star cls k (c # cs) =
     (case k (c # cs) of
        Some r \<Rightarrow> Some ([], r)
      | None \<Rightarrow>
          (if cls c then map_option (\<lambda>(w, r). (c # w, r)) (lazy_star cls k cs) else None))"

definition lazy_plus :: "(char \<Rightarrow> bool) \<Rightarrow> (string \<Rightarrow> 'a option) \<Rightarrow> string \<Rightarrow> (string \<times> 'a) option" where
  "lazy_plus cls k s =
     (case s of
        [] \<Rightarrow> None
      | c # cs \<Rightarrow>
          (if cls c then map_option (\<lambda>(w, r). (c # w, r)) (lazy_star cls k cs) else None))"

fun greedy_star :: "(char \<Rightarrow> bool) \<Rightarrow> (string \<Rightarrow> 'a option) \<Rightarrow> string \<Rightarrow> (string \<times> 'a) option" where
  "greedy_star cls k [] = map_option (Pair []) (k [])"
| "greedy_star cls k (c # cs) =
     (case (if cls c then map_option (\<lambda>(w, r). (c # w, r)) (greedy_star cls k cs) else None) of
        Some r \<Rightarrow> Some r
      | None \<Rightarrow> map_option (Pair []) (k (c # cs)))"

definition greedy_plus :: "(char \<Rightarrow> bool) \<Rightarrow> (string \<Rightarrow> 'a option) \<Rightarrow> string \<Rightarrow> (string \<times> 'a) option" where
  "greedy_plus cls k s =
     (case s of
        [] \<Rightarrow> None
      | c # cs \<Rightarrow>
          (if cls c then map_option (\<lambda>(w, r). (c # w, r)) (greedy_star cls k cs) else None))"

text \<open>A literal: the rest of the input after it.\<close>

definition lit :: "string \<Rightarrow> string \<Rightarrow> string option" where
  "lit p s = (if startsWith s p then Some (drop (length p) s) else None)"

text \<open>What a successful match says about the input.\<close>

lemma litD: "lit p s = Some r \<Longrightarrow> s = p @ r"
  by (auto simp: lit_def startsWith_def split: if_splits) (metis append_take_drop_id)

lemma lit_append [simp]: "lit p (p @ r) = Some r"
  by (simp add: lit_def startsWith_def)

lemma lazy_starD:
  "lazy_star cls k s = Some (w, r) \<Longrightarrow> \<exists>t. s = w @ t \<and> k t = Some r \<and> list_all cls w"
proof (induction s arbitrary: w)
  case Nil
  then show ?case by auto
next
  case (Cons c cs)
  show ?case
  proof (cases "k (c # cs)")
    case (Some r')
    with Cons.prems show ?thesis by auto
  next
    case None
    with Cons.prems obtain w' where "cls c" "w = c # w'" "lazy_star cls k cs = Some (w', r)"
      by (auto split: if_splits)
    with Cons.IH [of w'] show ?thesis by auto
  qed
qed

lemma lazy_plusD:
  "lazy_plus cls k s = Some (w, r) \<Longrightarrow>
     w \<noteq> [] \<and> (\<exists>t. s = w @ t \<and> k t = Some r \<and> list_all cls w)"
  by (auto simp: lazy_plus_def split: list.splits if_splits dest!: lazy_starD)

lemma greedy_starD:
  "greedy_star cls k s = Some (w, r) \<Longrightarrow> \<exists>t. s = w @ t \<and> k t = Some r \<and> list_all cls w"
proof (induction s arbitrary: w)
  case Nil
  then show ?case by auto
next
  case (Cons c cs)
  show ?case
  proof (cases "cls c \<and> greedy_star cls k cs \<noteq> None")
    case True
    with Cons.prems obtain w' where "w = c # w'" "greedy_star cls k cs = Some (w', r)"
      by auto
    with True Cons.IH [of w'] show ?thesis by auto
  next
    case False
    then have "(if cls c then map_option (\<lambda>(w, r). (c # w, r)) (greedy_star cls k cs) else None) = None"
      by (cases "greedy_star cls k cs") auto
    with Cons.prems show ?thesis by auto
  qed
qed

lemma greedy_plusD:
  "greedy_plus cls k s = Some (w, r) \<Longrightarrow>
     w \<noteq> [] \<and> (\<exists>t. s = w @ t \<and> k t = Some r \<and> list_all cls w)"
  by (auto simp: greedy_plus_def split: list.splits if_splits dest!: greedy_starD)

section \<open>Blocks and rich text\<close>

text \<open>The \<^verbatim>\<open>annotations\<close> object; a key that is absent reads as \<open>False\<close>.\<close>

datatype annotations = Annotations (bold: bool) (italic: bool) (code: bool)

text \<open>
  A rich-text object is \<^verbatim>\<open>{type: "text", text: {content, link: {url}}, annotations}\<close>,
  where \<^verbatim>\<open>link\<close> and \<^verbatim>\<open>annotations\<close> may be absent and \<^verbatim>\<open>url\<close> may be
  \<^verbatim>\<open>null\<close>, or \<^verbatim>\<open>{type: "equation", equation: {expression}}\<close>.
\<close>

datatype rich_text =
    Text (content: string) (link: "string option option") (annotations: "annotations option")
  | Equation (expression: string)

datatype heading_type = heading_1 | heading_2 | heading_3

datatype block =
    Equation_block string
  | Code_block "rich_text list" string
  | Divider
  | Heading heading_type "rich_text list"
  | Bulleted_list_item "rich_text list"
  | Numbered_list_item "rich_text list"
  | Quote "rich_text list"
  | Paragraph "rich_text list"


section \<open>The converter of \<^verbatim>\<open>netlify/functions/upload-notion.js\<close>\<close>

subsection \<open>\<^verbatim>\<open>processRichText\<close>: inline math only\<close>

text \<open>\<^verbatim>\<open>s.slice(a, b)\<close>: a negative index counts from the end.\<close>

definition slice :: "string \<Rightarrow> int \<Rightarrow> int \<Rightarrow> string" where
  "slice s a b =
     (let n = int (length s);
          from = (if a < 0 then max (n + a) 0 else min a n);
          to = (if b < 0 then max (n + b) 0 else min b n)
      in take (nat (to - from)) (drop (nat from) s))"

text \<open>The pattern \<^verbatim>\<open>\$[^$\r\n]*?\$\<close> at the start of \<open>s\<close>: the matched text and the rest.\<close>

definition inline_math_regex :: "string \<Rightarrow> (string \<times> string) option" where
  "inline_math_regex s =
     (case lit ''$'' s of
        None \<Rightarrow> None
      | Some s1 \<Rightarrow>
          (case lazy_star (\<lambda>c. c \<noteq> CHR ''$'' \<and> c \<noteq> CHR 0x0D \<and> c \<noteq> CHR 0x0A) (lit ''$'') s1 of
             None \<Rightarrow> None
           | Some (w, r) \<Rightarrow> Some (''$'' @ w @ ''$'', r)))"

lemma inline_math_regex_shorter:
  assumes "inline_math_regex s = Some (m, r)"
  shows "length r < length s"
proof -
  from assms obtain s1 w where s1: "lit ''$'' s = Some s1"
    and w: "lazy_star (\<lambda>c. c \<noteq> CHR ''$'' \<and> c \<noteq> CHR 0x0D \<and> c \<noteq> CHR 0x0A) (lit ''$'') s1 = Some (w, r)"
    by (auto simp: inline_math_regex_def split: option.splits)
  from lazy_starD [OF w] obtain t where "s1 = w @ t" "lit ''$'' t = Some r"
    by blast
  with s1 show ?thesis
    by (auto dest!: litD)
qed

text \<open>
  \<^verbatim>\<open>text.split(/(\$[^$\r\n]*?\$)/g)\<close>: \<open>acc\<close> holds, reversed, the text since the end of
  the last match; the pieces between matches and the captured matches alternate.
\<close>

function split_inline_math :: "string \<Rightarrow> string \<Rightarrow> string list" where
  "split_inline_math acc [] = [rev acc]"
| "split_inline_math acc (c # cs) =
     (case inline_math_regex (c # cs) of
        Some (m, r) \<Rightarrow> rev acc # m # split_inline_math [] r
      | None \<Rightarrow> split_inline_math (c # acc) cs)"
  by pat_completeness auto
termination
  by (relation "measure (\<lambda>(acc, s). length s)") (auto dest: inline_math_regex_shorter)

declare split_inline_math.simps [simp del]

text \<open>The loop over the segments, \<open>i\<close> the index of the first of \<open>segments\<close>.\<close>

fun segments_loop :: "nat \<Rightarrow> string list \<Rightarrow> rich_text list \<Rightarrow> rich_text list" where
  "segments_loop i [] richText = richText"
| "segments_loop i (seg # segments) richText =
     segments_loop (Suc i) segments
       (if i mod 2 = 0 then
          (if seg \<noteq> [] then richText @ [Text seg None None] else richText)
        else
          (if startsWith seg ''$'' \<and> endsWith seg ''$'' then
             (let expression = trim (slice seg 1 (- 1))
              in if expression \<noteq> [] then richText @ [Equation expression] else richText)
           else richText @ [Text seg None None]))"

definition processRichText :: "string \<Rightarrow> rich_text list" where
  "processRichText text = segments_loop 0 (split_inline_math [] text) []"

subsection \<open>\<^verbatim>\<open>parseMarkdownWithMath\<close>\<close>

text \<open>The anchored patterns of the scanner; each returns the rest of the line after the
  match, so that \<^verbatim>\<open>line.replace(re, '')\<close> is \<open>regex_remove\<close> and \<^verbatim>\<open>re.test(line)\<close>
  is \<open>regex_test\<close>.\<close>

definition regex_remove :: "(string \<Rightarrow> string option) \<Rightarrow> string \<Rightarrow> string" where
  "regex_remove re line = (case re line of Some rest \<Rightarrow> rest | None \<Rightarrow> line)"

definition regex_test :: "(string \<Rightarrow> string option) \<Rightarrow> string \<Rightarrow> bool" where
  "regex_test re line \<longleftrightarrow> re line \<noteq> None"

text \<open>\<^verbatim>\<open>/^#+/\<close>\<close>

definition re_hashes :: "string \<Rightarrow> string option" where
  "re_hashes s = map_option snd (greedy_plus (\<lambda>c. c = CHR ''#'') Some s)"

text \<open>\<^verbatim>\<open>/^#+\s*/\<close>\<close>

definition re_hashes_space :: "string \<Rightarrow> string option" where
  "re_hashes_space s =
     map_option snd
       (greedy_plus (\<lambda>c. c = CHR ''#'') (\<lambda>r. map_option snd (greedy_star is_space Some r)) s)"

text \<open>\<^verbatim>\<open>/^[-*]\s+/\<close>\<close>

definition re_bullet :: "string \<Rightarrow> string option" where
  "re_bullet s =
     (case s of
        [] \<Rightarrow> None
      | c # cs \<Rightarrow>
          (if c = CHR ''-'' \<or> c = CHR ''*'' then map_option snd (greedy_plus is_space Some cs)
           else None))"

text \<open>\<^verbatim>\<open>/^\d+\.\s/\<close>\<close>

definition re_number_test :: "string \<Rightarrow> string option" where
  "re_number_test s =
     map_option snd
       (greedy_plus is_digit
          (\<lambda>r. case lit ''.'' r of
                 None \<Rightarrow> None
               | Some r1 \<Rightarrow> (case r1 of [] \<Rightarrow> None | c # cs \<Rightarrow> if is_space c then Some cs else None))
          s)"

text \<open>\<^verbatim>\<open>/^\d+\.\s+/\<close>\<close>

definition re_number :: "string \<Rightarrow> string option" where
  "re_number s =
     map_option snd
       (greedy_plus is_digit
          (\<lambda>r. case lit ''.'' r of
                 None \<Rightarrow> None
               | Some r1 \<Rightarrow> map_option snd (greedy_plus is_space Some r1))
          s)"

text \<open>\<^verbatim>\<open>/^>\s+/\<close>\<close>

definition re_quote :: "string \<Rightarrow> string option" where
  "re_quote s =
     (case lit ''>'' s of
        None \<Rightarrow> None
      | Some r \<Rightarrow> map_option snd (greedy_plus is_space Some r))"

text \<open>The inner loop of a multi-line equation: the cursor and the rows collected.\<close>

function math_loop :: "string list \<Rightarrow> nat \<Rightarrow> string list \<Rightarrow> nat \<times> string list" where
  "math_loop lines i mathContent =
     (if i < length lines then
        (let currentLine = lines ! i
         in if endsWith (trim currentLine) ''$$'' then
              (let lastPart =
                     trim (substring currentLine 0
                             (case lastIndexOf currentLine ''$$'' of Some k \<Rightarrow> k | None \<Rightarrow> 0))
               in (i, if lastPart \<noteq> [] then mathContent @ [lastPart] else mathContent))
            else math_loop lines (Suc i) (mathContent @ [currentLine]))
      else (i, mathContent))"
  by pat_completeness auto
termination
  by (relation "measure (\<lambda>(lines, i, mathContent). length lines - i)") auto

declare math_loop.simps [simp del]

text \<open>The inner loop of a fenced code block.\<close>

function code_loop :: "string list \<Rightarrow> nat \<Rightarrow> string list \<Rightarrow> nat \<times> string list" where
  "code_loop lines i codeContent =
     (if i < length lines \<and> \<not> startsWith (trim (lines ! i)) ''```'' then
        code_loop lines (Suc i) (codeContent @ [lines ! i])
      else (i, codeContent))"
  by pat_completeness auto
termination
  by (relation "measure (\<lambda>(lines, i, codeContent). length lines - i)") auto

declare code_loop.simps [simp del]

definition heading_block_type :: "nat \<Rightarrow> heading_type" where
  "heading_block_type level =
     (if level = 1 then heading_1 else if level = 2 then heading_2 else heading_3)"

text \<open>
  The body of the outer loop for the line at the cursor \<open>i < length lines\<close>, up to but
  without the final \<^verbatim>\<open>i++\<close>: the cursor and the blocks after it.
\<close>

definition scan_step :: "string list \<Rightarrow> nat \<Rightarrow> block list \<Rightarrow> nat \<times> block list" where
  "scan_step lines i blocks =
     (let line = trim (lines ! i)
      in if startsWith line ''$$'' then
           (let firstLine = substring line 2 (length line)
            in if endsWith firstLine ''$$'' then
                 (let expression = trim (substring firstLine 0 (length firstLine - 2))
                  in (i, if expression \<noteq> [] then blocks @ [Equation_block expression] else blocks))
               else
                 (let (i', mathContent) =
                        math_loop lines (Suc i) (if trim firstLine \<noteq> [] then [trim firstLine] else [])
                  in (i', if length mathContent > 0
                          then blocks @ [Equation_block (trim (join_lines mathContent))]
                          else blocks)))
         else if startsWith line ''```'' then
           (let language =
                  (let l = trim (replace_first line ''```'' [])
                   in if l \<noteq> [] then l else ''plain text'');
                (i', codeContent) = code_loop lines (Suc i) []
            in (i', blocks @ [Code_block [Text (join_lines codeContent) None None] language]))
         else if line = ''---'' \<or> line = ''***'' \<or> line = ''___'' then
           (i, blocks @ [Divider])
         else if startsWith line ''#'' then
           (let level = length line - length (regex_remove re_hashes line);
                text = regex_remove re_hashes_space line
            in (i, blocks @ [Heading (heading_block_type level) (processRichText text)]))
         else if startsWith line ''- '' \<or> startsWith line ''* '' then
           (i, blocks @ [Bulleted_list_item (processRichText (regex_remove re_bullet line))])
         else if regex_test re_number_test line then
           (i, blocks @ [Numbered_list_item (processRichText (regex_remove re_number line))])
         else if startsWith line ''> '' then
           (i, blocks @ [Quote (processRichText (regex_remove re_quote line))])
         else if line \<noteq> [] then
           (i, blocks @ [Paragraph (processRichText line)])
         else (i, blocks))"

lemma math_loop_cursor: "i \<le> fst (math_loop lines i mathContent)"
proof (induction lines i mathContent rule: math_loop.induct)
  case (1 lines i mathContent)
  show ?case
  proof (cases "i < length lines \<and> \<not> endsWith (trim (lines ! i)) ''$$''")
    case True
    with 1 have "Suc i \<le> fst (math_loop lines (Suc i) (mathContent @ [lines ! i]))"
      by simp
    with True show ?thesis
      by (subst math_loop.simps) simp
  next
    case False
    then show ?thesis
      by (subst math_loop.simps) (auto simp: Let_def)
  qed
qed

lemma code_loop_cursor: "i \<le> fst (code_loop lines i codeContent)"
proof (induction lines i codeContent rule: code_loop.induct)
  case (1 lines i codeContent)
  show ?case
  proof (cases "i < length lines \<and> \<not> startsWith (trim (lines ! i)) ''```''")
    case True
    with 1 have "Suc i \<le> fst (code_loop lines (Suc i) (codeContent @ [lines ! i]))"
      by simp
    with True show ?thesis
      by (subst code_loop.simps) simp
  next
    case False
    then show ?thesis
      by (subst code_loop.simps) auto
  qed
qed

lemma scan_step_cursor: "i \<le> fst (scan_step lines i blocks)"
proof -
  have m: "i \<le> fst (math_loop lines (Suc i) mc)" for mc
    using math_loop_cursor [of "Suc i" lines mc] by simp
  have c: "i \<le> fst (code_loop lines (Suc i) [])"
    using code_loop_cursor [of "Suc i" lines "[]"] by simp
  show ?thesis
    using m c by (simp add: scan_step_def Let_def split_beta)
qed

text \<open>The outer loop: \<^verbatim>\<open>while (i < lines.length) { ...; i++ }\<close>.\<close>

function scan_loop :: "string list \<Rightarrow> nat \<Rightarrow> block list \<Rightarrow> block list" where
  "scan_loop lines i blocks =
     (if i < length lines then
        (let (i', blocks') = scan_step lines i blocks in scan_loop lines (Suc i') blocks')
      else blocks)"
  by pat_completeness auto
termination
proof (relation "measure (\<lambda>(lines, i, blocks). length lines - i)")
  show "wf (measure (\<lambda>(lines, i, blocks). length lines - i))"
    by simp
next
  fix lines :: "string list" and i :: nat and blocks x i' blocks'
  assume "i < length lines" and "x = scan_step lines i blocks" and "(i', blocks') = x"
  then have "i \<le> i'"
    using scan_step_cursor [of i lines blocks] by (metis fst_conv)
  with \<open>i < length lines\<close>
  show "((lines, Suc i', blocks'), lines, i, blocks) \<in> measure (\<lambda>(lines, i, blocks). length lines - i)"
    by simp
qed

declare scan_loop.simps [simp del]

definition parseMarkdownWithMath :: "string \<Rightarrow> block list" where
  "parseMarkdownWithMath markdownContent = scan_loop (split_lines markdownContent) 0 []"

section \<open>The converter with inline formatting\<close>

text \<open>
  A second revision of the function file (\<^verbatim>\<open>src/unnamed/part_001\<close>) defines
  \<^verbatim>\<open>parseMarkdownWithMath\<close> and \<^verbatim>\<open>processRichText\<close> again, with \<^verbatim>\<open>processTextFormatting\<close>
  for bold, italic, inline code and links.  Its definitions carry the suffix \<open>_fmt\<close>
  where the name is taken.
\<close>

subsection \<open>\<^verbatim>\<open>processTextFormatting\<close>\<close>

text \<open>The \<^verbatim>\<open>type\<close> of a pattern, and its \<^verbatim>\<open>format\<close> (\<^verbatim>\<open>null\<close> for a link).\<close>

datatype pattern_type = Bold | Italic | Code | Link

fun pattern_format :: "pattern_type \<Rightarrow> annotations option" where
  "pattern_format Bold = Some (Annotations True False False)"
| "pattern_format Italic = Some (Annotations False True False)"
| "pattern_format Code = Some (Annotations False False True)"
| "pattern_format Link = None"

text \<open>
  The four patterns, matched at the start of \<open>s\<close> with \<open>prev\<close> the character before it
  (for the look-behind of the italic pattern): the first group, the second group if the
  pattern has one, and the rest of the input after the match.
  \<^item> bold: \<^verbatim>\<open>\*\*([^*\n]+?)\*\*\<close>
  \<^item> italic: \<^verbatim>\<open>(?<!\*)\*([^*\n]+?)\*(?!\*)\<close>
  \<^item> code: a backquote, \<^verbatim>\<open>([^`\n]+?)\<close>, a backquote
  \<^item> link: \<^verbatim>\<open>\[([^\]]+?)\]\(([^)\n]+?)\)\<close>
\<close>

fun pattern_regex :: "pattern_type \<Rightarrow> char option \<Rightarrow> string \<Rightarrow> (string \<times> string option \<times> string) option" where
  "pattern_regex Bold prev s =
     (case lit ''**'' s of
        None \<Rightarrow> None
      | Some s1 \<Rightarrow>
          map_option (\<lambda>(w, r). (w, None, r))
            (lazy_plus (\<lambda>c. c \<noteq> CHR ''*'' \<and> c \<noteq> CHR 0x0A) (lit ''**'') s1))"
| "pattern_regex Italic prev s =
     (if prev = Some CHR ''*'' then None
      else
        (case lit ''*'' s of
           None \<Rightarrow> None
         | Some s1 \<Rightarrow>
             map_option (\<lambda>(w, r). (w, None, r))
               (lazy_plus (\<lambda>c. c \<noteq> CHR ''*'' \<and> c \<noteq> CHR 0x0A)
                  (\<lambda>t. case lit ''*'' t of
                         None \<Rightarrow> None
                       | Some r \<Rightarrow> if startsWith r ''*'' then None else Some r)
                  s1)))"
| "pattern_regex Code prev s =
     (case lit ''`'' s of
        None \<Rightarrow> None
      | Some s1 \<Rightarrow>
          map_option (\<lambda>(w, r). (w, None, r))
            (lazy_plus (\<lambda>c. c \<noteq> CHR ''`'' \<and> c \<noteq> CHR 0x0A) (lit ''`'') s1))"
| "pattern_regex Link prev s =
     (case lit ''['' s of
        None \<Rightarrow> None
      | Some s1 \<Rightarrow>
          map_option (\<lambda>(w, u, r). (w, Some u, r))
            (lazy_plus (\<lambda>c. c \<noteq> CHR '']'')
               (\<lambda>t. case lit ''](''  t of
                      None \<Rightarrow> None
                    | Some t1 \<Rightarrow> lazy_plus (\<lambda>c. c \<noteq> CHR '')'' \<and> c \<noteq> CHR 0x0A) (lit '')'') t1)
               s1))"

text \<open>A match is never empty, and its groups are not either.\<close>

lemma pattern_regex_groups:
  assumes "pattern_regex ty prev s = Some (g1, g2, r)"
  shows "length r < length s" and "g1 \<noteq> []" and "g2 \<noteq> Some []"
    and "ty = Link \<longleftrightarrow> g2 \<noteq> None"
proof -
  have "length r < length s \<and> g1 \<noteq> [] \<and> g2 \<noteq> Some [] \<and> (ty = Link \<longleftrightarrow> g2 \<noteq> None)"
  proof (cases ty)
    case Bold
    with assms show ?thesis
      by (auto split: option.splits dest!: lazy_plusD litD)
  next
    case Italic
    with assms show ?thesis
      by (auto split: option.splits if_splits dest!: lazy_plusD litD)
  next
    case Code
    with assms show ?thesis
      by (auto split: option.splits dest!: lazy_plusD litD)
  next
    case Link
    with assms obtain s1 u where s1: "lit ''['' s = Some s1" and g2: "g2 = Some u"
      and w: "lazy_plus (\<lambda>c. c \<noteq> CHR '']'')
               (\<lambda>t. case lit ''](''  t of
                      None \<Rightarrow> None
                    | Some t1 \<Rightarrow> lazy_plus (\<lambda>c. c \<noteq> CHR '')'' \<and> c \<noteq> CHR 0x0A) (lit '')'') t1)
               s1 = Some (g1, u, r)"
      by (auto split: option.splits)
    from lazy_plusD [OF w] obtain t t1 where g1: "g1 \<noteq> []" and t: "s1 = g1 @ t"
      and t1: "lit ''](''  t = Some t1"
      and u: "lazy_plus (\<lambda>c. c \<noteq> CHR '')'' \<and> c \<noteq> CHR 0x0A) (lit '')'') t1 = Some (u, r)"
      by (auto split: option.splits)
    from lazy_plusD [OF u] obtain t2 where "u \<noteq> []" "t1 = u @ t2" "lit '')'' t2 = Some r"
      by blast
    with s1 g1 t t1 g2 Link show ?thesis
      by (auto dest!: litD)
  qed
  then show "length r < length s" and "g1 \<noteq> []" and "g2 \<noteq> Some []"
    and "ty = Link \<longleftrightarrow> g2 \<noteq> None"
    by blast+
qed

text \<open>
  \<^verbatim>\<open>regex.exec(text)\<close> of a global pattern whose \<^verbatim>\<open>lastIndex\<close> is \<open>i\<close>: the leftmost match
  that starts at \<open>i\<close> or later, as its index, its groups and the rest of the text.
\<close>

function regex_exec :: "pattern_type \<Rightarrow> string \<Rightarrow> nat \<Rightarrow> (nat \<times> string \<times> string option \<times> string) option" where
  "regex_exec ty text i =
     (if length text < i then None
      else
        (case pattern_regex ty (if i = 0 then None else Some (text ! (i - 1))) (drop i text) of
           Some (g1, g2, r) \<Rightarrow> Some (i, g1, g2, r)
         | None \<Rightarrow> regex_exec ty text (Suc i)))"
  by pat_completeness auto
termination
  by (relation "measure (\<lambda>(ty, text, i). Suc (length text) - i)") auto

declare regex_exec.simps [simp del]

lemma regex_exec_index:
  "regex_exec ty text i = Some (j, g1, g2, r) \<Longrightarrow>
     i \<le> j \<and> j \<le> length text \<and> length r < length text - j \<and> g1 \<noteq> [] \<and> g2 \<noteq> Some [] \<and>
     (ty = Link \<longleftrightarrow> g2 \<noteq> None)"
proof (induction ty "text" i rule: regex_exec.induct)
  case (1 ty t i)
  let ?m = "pattern_regex ty (if i = 0 then None else Some (t ! (i - 1))) (drop i t)"
  from "1.prems" have i: "i \<le> length t"
    by (subst (asm) regex_exec.simps) (auto split: if_splits)
  show ?case
  proof (cases ?m)
    case None
    with i "1.prems" have "regex_exec ty t (Suc i) = Some (j, g1, g2, r)"
      by (subst (asm) regex_exec.simps) simp
    with "1.IH" [OF _ None] i show ?thesis
      by auto
  next
    case (Some a)
    with i "1.prems" have "?m = Some (g1, g2, r)" and "j = i"
      by (subst (asm) regex_exec.simps; auto)+
    with i pattern_regex_groups [of ty _ "drop i t" g1 g2 r] show ?thesis
      by auto
  qed
qed

text \<open>One entry of \<^verbatim>\<open>matches\<close>.\<close>

record match =
  match_start :: nat
  match_end :: nat
  match_content :: string
  match_fullMatch :: string
  match_format :: "annotations option"
  match_type :: pattern_type
  match_url :: "string option"

text \<open>
  The loop \<^verbatim>\<open>while ((match = regex.exec(text)) !== null)\<close> of one pattern, from the
  \<^verbatim>\<open>lastIndex\<close> given; \<^verbatim>\<open>match[2] || null\<close> takes an empty or missing group to \<^verbatim>\<open>null\<close>.
\<close>

function find_matches :: "pattern_type \<Rightarrow> string \<Rightarrow> nat \<Rightarrow> match list" where
  "find_matches ty text lastIndex =
     (case regex_exec ty text lastIndex of
        None \<Rightarrow> []
      | Some (index, g1, g2, r) \<Rightarrow>
          (let fullMatch = take (length text - index - length r) (drop index text)
           in \<lparr>match_start = index,
                match_end = index + length fullMatch,
                match_content = g1,
                match_fullMatch = fullMatch,
                match_format = pattern_format ty,
                match_type = ty,
                match_url = (case g2 of None \<Rightarrow> None | Some u \<Rightarrow> if u \<noteq> [] then Some u else None)\<rparr>
              # find_matches ty text (index + length fullMatch)))"
  by pat_completeness auto
termination
proof (relation "measure (\<lambda>(ty, text, lastIndex). Suc (length text) - lastIndex)")
  show "wf (measure (\<lambda>(ty, text, lastIndex). Suc (length text) - lastIndex))"
    by simp
next
  fix ty t lastIndex x2 index y g1 ya g2 r and fullMatch :: string
  assume "regex_exec ty t lastIndex = Some x2" and "(index, y) = x2" and "(g1, ya) = y"
    and "(g2, r) = ya" and "fullMatch = take (length t - index - length r) (drop index t)"
  then have "regex_exec ty t lastIndex = Some (index, g1, g2, r)"
    and f: "length fullMatch = length t - index - length r"
    by auto
  from regex_exec_index [OF this(1)] f
  show "((ty, t, index + length fullMatch), ty, t, lastIndex)
          \<in> measure (\<lambda>(ty, text, lastIndex). Suc (length text) - lastIndex)"
    by auto
qed

declare find_matches.simps [simp del]

text \<open>\<^verbatim>\<open>patterns.forEach\<close>, then \<^verbatim>\<open>matches.sort((a, b) => a.start - b.start)\<close>.\<close>

definition all_matches :: "string \<Rightarrow> match list" where
  "all_matches text = concat (map (\<lambda>ty. find_matches ty text 0) [Bold, Italic, Code, Link])"

definition sorted_matches :: "string \<Rightarrow> match list" where
  "sorted_matches text = sort_key match_start (all_matches text)"

text \<open>The loop that fills \<^verbatim>\<open>validMatches\<close>.\<close>

definition hasOverlap :: "match list \<Rightarrow> match \<Rightarrow> bool" where
  "hasOverlap validMatches current \<longleftrightarrow>
     list_ex (\<lambda>existing. match_start current < match_end existing \<and>
                         match_end current > match_start existing) validMatches"

fun remove_overlaps :: "match list \<Rightarrow> match list \<Rightarrow> match list" where
  "remove_overlaps validMatches [] = validMatches"
| "remove_overlaps validMatches (current # matches) =
     remove_overlaps
       (if \<not> hasOverlap validMatches current then validMatches @ [current] else validMatches)
       matches"

text \<open>\<^verbatim>\<open>validMatches.forEach\<close>: the state is \<^verbatim>\<open>lastEnd\<close> and \<^verbatim>\<open>parts\<close>.\<close>

definition match_part :: "match \<Rightarrow> rich_text" where
  "match_part m =
     (if match_type m = Link then Text (match_content m) (Some (match_url m)) None
      else Text (match_content m) None (match_format m))"

fun build_parts :: "string \<Rightarrow> match list \<Rightarrow> nat \<times> rich_text list \<Rightarrow> nat \<times> rich_text list" where
  "build_parts text [] (lastEnd, parts) = (lastEnd, parts)"
| "build_parts text (m # ms) (lastEnd, parts) =
     (let parts1 =
            (if match_start m > lastEnd then
               (let beforeText = substring text lastEnd (match_start m)
                in if beforeText \<noteq> [] then parts @ [Text beforeText None None] else parts)
             else parts)
      in build_parts text ms (match_end m, parts1 @ [match_part m]))"

definition processTextFormatting :: "string \<Rightarrow> rich_text list" where
  "processTextFormatting text =
     (let validMatches = remove_overlaps [] (sorted_matches text);
          (lastEnd, parts) = build_parts text validMatches (0, []);
          parts1 =
            (if lastEnd < length text then
               (let remainingText = substring text lastEnd (length text)
                in if remainingText \<noteq> [] then parts @ [Text remainingText None None] else parts)
             else parts)
      in if length parts1 = 0 \<and> trim text \<noteq> [] then parts1 @ [Text text None None] else parts1)"

subsection \<open>\<^verbatim>\<open>processRichText\<close> with placeholders\<close>

text \<open>The decimal numeral of a template literal, and \<^verbatim>\<open>parseInt\<close> on a run of digits.\<close>

function show_nat :: "nat \<Rightarrow> string" where
  "show_nat n =
     (if n < 10 then [''0123456789'' ! n]
      else show_nat (n div 10) @ [''0123456789'' ! (n mod 10)])"
  by pat_completeness auto
termination
  by (relation "measure id") auto

declare show_nat.simps [simp del]

definition parseInt :: "string \<Rightarrow> nat" where
  "parseInt ds = foldl (\<lambda>a c. 10 * a + (of_char c - 48)) 0 ds"

text \<open>The pattern \<^verbatim>\<open>\$([^$\n]+)\$\<close> at the start of \<open>s\<close>: the group and the rest.\<close>

definition math_regex :: "string \<Rightarrow> (string \<times> string) option" where
  "math_regex s =
     (case lit ''$'' s of
        None \<Rightarrow> None
      | Some s1 \<Rightarrow> greedy_plus (\<lambda>c. c \<noteq> CHR ''$'' \<and> c \<noteq> CHR 0x0A) (lit ''$'') s1)"

lemma math_regex_shorter:
  assumes "math_regex s = Some (equation, r)"
  shows "length r < length s"
proof -
  from assms obtain s1 where s1: "lit ''$'' s = Some s1"
    and w: "greedy_plus (\<lambda>c. c \<noteq> CHR ''$'' \<and> c \<noteq> CHR 0x0A) (lit ''$'') s1 = Some (equation, r)"
    by (auto simp: math_regex_def split: option.splits)
  from greedy_plusD [OF w] obtain t where "s1 = equation @ t" "lit ''$'' t = Some r"
    by blast
  with s1 show ?thesis
    by (auto dest!: litD)
qed

text \<open>
  \<^verbatim>\<open>tempText.replace(/\$([^$\n]+)\$/g, ...)\<close> with its callback: every match becomes the
  placeholder of its index and its trimmed group is stored at that index of
  \<^verbatim>\<open>mathPlaceholders\<close>; \<^verbatim>\<open>mathIndex\<close> is the length of \<^verbatim>\<open>mathPlaceholders\<close>.  The result is
  \<^verbatim>\<open>tempText\<close> and the final \<^verbatim>\<open>mathPlaceholders\<close>.
\<close>

function replace_math :: "string list \<Rightarrow> string \<Rightarrow> string \<times> string list" where
  "replace_math mathPlaceholders [] = ([], mathPlaceholders)"
| "replace_math mathPlaceholders (c # cs) =
     (case math_regex (c # cs) of
        Some (equation, r) \<Rightarrow>
          (let placeholder = ''__MATH_'' @ show_nat (length mathPlaceholders) @ ''__'';
               (tempText, mathPlaceholders') = replace_math (mathPlaceholders @ [trim equation]) r
           in (placeholder @ tempText, mathPlaceholders'))
      | None \<Rightarrow>
          (let (tempText, mathPlaceholders') = replace_math mathPlaceholders cs
           in (c # tempText, mathPlaceholders')))"
  by pat_completeness auto
termination
  by (relation "measure (\<lambda>(mathPlaceholders, s). length s)") (auto dest: math_regex_shorter)

declare replace_math.simps [simp del]

text \<open>\<^verbatim>\<open>s.includes(p)\<close>.\<close>

fun includes_str :: "string \<Rightarrow> string \<Rightarrow> bool" where
  "includes_str [] p \<longleftrightarrow> p = []"
| "includes_str (c # cs) p \<longleftrightarrow> startsWith (c # cs) p \<or> includes_str cs p"

text \<open>The pattern \<^verbatim>\<open>__MATH_\d+__\<close> at the start of \<open>s\<close>: the matched text and the rest.\<close>

definition placeholder_regex :: "string \<Rightarrow> (string \<times> string) option" where
  "placeholder_regex s =
     (case lit ''__MATH_'' s of
        None \<Rightarrow> None
      | Some s1 \<Rightarrow>
          map_option (\<lambda>(ds, r). (''__MATH_'' @ ds @ ''__'', r))
            (greedy_plus is_digit (lit ''__'') s1))"

lemma placeholder_regex_shorter:
  assumes "placeholder_regex s = Some (m, r)"
  shows "length r < length s"
proof -
  from assms obtain s1 ds where s1: "lit ''__MATH_'' s = Some s1"
    and w: "greedy_plus is_digit (lit ''__'') s1 = Some (ds, r)"
    by (auto simp: placeholder_regex_def split: option.splits)
  from greedy_plusD [OF w] obtain t where "s1 = ds @ t" "lit ''__'' t = Some r"
    by blast
  with s1 show ?thesis
    by (auto dest!: litD)
qed

text \<open>\<^verbatim>\<open>content.split(/(__MATH_\d+__)/)\<close>, as \<open>split_inline_math\<close> above.\<close>

function split_placeholders :: "string \<Rightarrow> string \<Rightarrow> string list" where
  "split_placeholders acc [] = [rev acc]"
| "split_placeholders acc (c # cs) =
     (case placeholder_regex (c # cs) of
        Some (m, r) \<Rightarrow> rev acc # m # split_placeholders [] r
      | None \<Rightarrow> split_placeholders (c # acc) cs)"
  by pat_completeness auto
termination
  by (relation "measure (\<lambda>(acc, s). length s)") (auto dest: placeholder_regex_shorter)

declare split_placeholders.simps [simp del]

text \<open>\<^verbatim>\<open>segment.match(/\d+/)\<close>: the leftmost longest run of digits, \<open>None\<close> for \<^verbatim>\<open>null\<close>.\<close>

definition match_digits :: "string \<Rightarrow> string option" where
  "match_digits s =
     (case dropWhile (\<lambda>c. \<not> is_digit c) s of
        [] \<Rightarrow> None
      | d # ds \<Rightarrow> Some (takeWhile is_digit (d # ds)))"

text \<open>Reading element 0 of \<^verbatim>\<open>null\<close> raises a \<^verbatim>\<open>TypeError\<close>.\<close>

datatype error = TypeError

text \<open>
  The loop over the segments of one part.  \<^verbatim>\<open>mathPlaceholders[index]\<close> is
  \<^verbatim>\<open>undefined\<close> beyond the end of the array and is falsy when it is the empty string;
  \<^verbatim>\<open>part.annotations || {}\<close> is the empty object when the part has no annotations.
\<close>

fun restore_segments ::
  "string list \<Rightarrow> annotations option \<Rightarrow> string list \<Rightarrow> rich_text list \<Rightarrow> error + rich_text list" where
  "restore_segments mathPlaceholders ann [] richText = Inr richText"
| "restore_segments mathPlaceholders ann (segment # segments) richText =
     (if startsWith segment ''__MATH_'' \<and> endsWith segment ''__'' then
        (case match_digits segment of
           None \<Rightarrow> Inl TypeError
         | Some ds \<Rightarrow>
             (let index = parseInt ds
              in restore_segments mathPlaceholders ann segments
                   (if index < length mathPlaceholders \<and> mathPlaceholders ! index \<noteq> []
                    then richText @ [Equation (mathPlaceholders ! index)]
                    else richText)))
      else if segment \<noteq> [] then
        restore_segments mathPlaceholders ann segments
          (richText @
             [Text segment None
                (Some (case ann of Some a \<Rightarrow> a | None \<Rightarrow> Annotations False False False))])
      else restore_segments mathPlaceholders ann segments richText)"

text \<open>The loop \<^verbatim>\<open>for (const part of textParts)\<close>.\<close>

fun restore_parts :: "string list \<Rightarrow> rich_text list \<Rightarrow> rich_text list \<Rightarrow> error + rich_text list" where
  "restore_parts mathPlaceholders [] richText = Inr richText"
| "restore_parts mathPlaceholders (Text c l a # textParts) richText =
     (if includes_str c ''__MATH_'' then
        (case restore_segments mathPlaceholders a (split_placeholders [] c) richText of
           Inl e \<Rightarrow> Inl e
         | Inr richText' \<Rightarrow> restore_parts mathPlaceholders textParts richText')
      else restore_parts mathPlaceholders textParts (richText @ [Text c l a]))"
| "restore_parts mathPlaceholders (Equation e # textParts) richText =
     restore_parts mathPlaceholders textParts (richText @ [Equation e])"

definition processRichText_fmt :: "string \<Rightarrow> error + rich_text list" where
  "processRichText_fmt text =
     (let (tempText, mathPlaceholders) = replace_math [] text;
          textParts = processTextFormatting tempText
      in restore_parts mathPlaceholders textParts [])"

subsection \<open>\<^verbatim>\<open>parseMarkdownWithMath\<close> with single-dollar math blocks\<close>

text \<open>The inner loop of a math block of this revision: it stops at a line that ends with
  one dollar sign.\<close>

function math_loop_fmt :: "string list \<Rightarrow> nat \<Rightarrow> string list \<Rightarrow> nat \<times> string list" where
  "math_loop_fmt lines i mathContent =
     (if i < length lines \<and> \<not> endsWith (trim (lines ! i)) ''$'' then
        math_loop_fmt lines (Suc i) (mathContent @ [lines ! i])
      else (i, mathContent))"
  by pat_completeness auto
termination
  by (relation "measure (\<lambda>(lines, i, mathContent). length lines - i)") auto

declare math_loop_fmt.simps [simp del]

text \<open>A block that holds rich text: the tokenizer's error is the step's error.\<close>

definition with_rich_text ::
  "nat \<Rightarrow> block list \<Rightarrow> (rich_text list \<Rightarrow> block) \<Rightarrow> error + rich_text list \<Rightarrow> error + nat \<times> block list" where
  "with_rich_text i blocks mk res =
     (case res of Inl e \<Rightarrow> Inl e | Inr rich_text \<Rightarrow> Inr (i, blocks @ [mk rich_text]))"

definition scan_step_fmt :: "string list \<Rightarrow> nat \<Rightarrow> block list \<Rightarrow> error + nat \<times> block list" where
  "scan_step_fmt lines i blocks =
     (let line = trim (lines ! i)
      in if startsWith line ''$'' then
           (let (i', mathContent) = math_loop_fmt lines (Suc i) [];
                mathContent' =
                  (if i' < length lines then
                     (let lastLine = trim (replace_first (lines ! i') ''$'' [])
                      in if lastLine \<noteq> [] then mathContent @ [lastLine] else mathContent)
                   else mathContent)
            in Inr (i', blocks @ [Equation_block (trim (join_lines mathContent'))]))
         else if startsWith line ''```'' then
           (let language =
                  (let l = trim (replace_first line ''```'' [])
                   in if l \<noteq> [] then l else ''plain text'');
                (i', codeContent) = code_loop lines (Suc i) []
            in Inr (i', blocks @ [Code_block [Text (join_lines codeContent) None None] language]))
         else if line = ''---'' \<or> line = ''***'' \<or> line = ''___'' then
           Inr (i, blocks @ [Divider])
         else if startsWith line ''#'' then
           (let level = length line - length (regex_remove re_hashes line);
                text = regex_remove re_hashes_space line
            in with_rich_text i blocks (Heading (heading_block_type level)) (processRichText_fmt text))
         else if startsWith line ''- '' \<or> startsWith line ''* '' then
           with_rich_text i blocks Bulleted_list_item
             (processRichText_fmt (regex_remove re_bullet line))
         else if regex_test re_number_test line then
           with_rich_text i blocks Numbered_list_item
             (processRichText_fmt (regex_remove re_number line))
         else if startsWith line ''> '' then
           with_rich_text i blocks Quote (processRichText_fmt (regex_remove re_quote line))
         else if line \<noteq> [] \<and> \<not> startsWith line ''$'' then
           with_rich_text i blocks Paragraph (processRichText_fmt line)
         else if line = [] then
           Inr (i, blocks @ [Paragraph []])
         else Inr (i, blocks))"

lemma math_loop_fmt_cursor: "i \<le> fst (math_loop_fmt lines i mathContent)"
proof (induction lines i mathContent rule: math_loop_fmt.induct)
  case (1 lines i mathContent)
  show ?case
  proof (cases "i < length lines \<and> \<not> endsWith (trim (lines ! i)) ''$''")
    case True
    with 1 have "Suc i \<le> fst (math_loop_fmt lines (Suc i) (mathContent @ [lines ! i]))"
      by simp
    with True show ?thesis
      by (subst math_loop_fmt.simps) simp
  next
    case False
    then show ?thesis
      by (subst math_loop_fmt.simps) auto
  qed
qed

lemma scan_step_fmt_cursor:
  assumes "scan_step_fmt lines i blocks = Inr (i', blocks')"
  shows "i \<le> i'"
proof -
  have m: "i \<le> fst (math_loop_fmt lines (Suc i) [])"
    using math_loop_fmt_cursor [of "Suc i" lines "[]"] by simp
  have c: "i \<le> fst (code_loop lines (Suc i) [])"
    using code_loop_cursor [of "Suc i" lines "[]"] by simp
  from assms m c show ?thesis
    by (auto simp: scan_step_fmt_def with_rich_text_def Let_def split_beta
          split: if_splits sum.splits)
qed

text \<open>The outer loop; an error of the tokenizer leaves it.\<close>

function scan_loop_fmt :: "string list \<Rightarrow> nat \<Rightarrow> block list \<Rightarrow> error + block list" where
  "scan_loop_fmt lines i blocks =
     (if i < length lines then
        (case scan_step_fmt lines i blocks of
           Inl e \<Rightarrow> Inl e
         | Inr (i', blocks') \<Rightarrow> scan_loop_fmt lines (Suc i') blocks')
      else Inr blocks)"
  by pat_completeness auto
termination
proof (relation "measure (\<lambda>(lines, i, blocks). length lines - i)")
  show "wf (measure (\<lambda>(lines, i, blocks). length lines - i))"
    by simp
next
  fix lines :: "string list" and i :: nat and blocks x i' blocks'
  assume "i < length lines" and "scan_step_fmt lines i blocks = Inr x" and "(i', blocks') = x"
  then have "i \<le> i'"
    using scan_step_fmt_cursor [of lines i blocks i' blocks'] by simp
  with \<open>i < length lines\<close>
  show "((lines, Suc i', blocks'), lines, i, blocks) \<in> measure (\<lambda>(lines, i, blocks). length lines - i)"
    by simp
qed

declare scan_loop_fmt.simps [simp del]

definition parseMarkdownWithMath_fmt :: "string \<Rightarrow> error + block list" where
  "parseMarkdownWithMath_fmt markdownContent = scan_loop_fmt (split_lines markdownContent) 0 []"

section \<open>The converter with math blocks, headings and paragraphs only\<close>

text \<open>
  A third revision of the function file (\<^verbatim>\<open>src/unnamed/part_000\<close>) has
  \<^verbatim>\<open>parseMarkdownWithMath\<close> with math blocks, headings, paragraphs and blank lines only,
  and \<^verbatim>\<open>processInlineMath\<close> for the inline math.  Its definitions carry the suffix
  \<open>_basic\<close> where the name is taken.
\<close>

text \<open>The pattern \<^verbatim>\<open>\$([^$]+)\$\<close> at the start of \<open>s\<close>: the group and the rest.\<close>

definition math_group_regex :: "string \<Rightarrow> (string \<times> string) option" where
  "math_group_regex s =
     (case lit ''$'' s of
        None \<Rightarrow> None
      | Some s1 \<Rightarrow> greedy_plus (\<lambda>c. c \<noteq> CHR ''$'') (lit ''$'') s1)"

lemma math_group_regex_shorter:
  assumes "math_group_regex s = Some (g, r)"
  shows "length r < length s"
proof -
  from assms obtain s1 where s1: "lit ''$'' s = Some s1"
    and w: "greedy_plus (\<lambda>c. c \<noteq> CHR ''$'') (lit ''$'') s1 = Some (g, r)"
    by (auto simp: math_group_regex_def split: option.splits)
  from greedy_plusD [OF w] obtain t where "s1 = g @ t" "lit ''$'' t = Some r"
    by blast
  with s1 show ?thesis
    by (auto dest!: litD)
qed

text \<open>\<^verbatim>\<open>text.split(/\$([^$]+)\$/)\<close>: the pieces between the matches and the groups of the
  matches alternate.\<close>

function split_math_group :: "string \<Rightarrow> string \<Rightarrow> string list" where
  "split_math_group acc [] = [rev acc]"
| "split_math_group acc (c # cs) =
     (case math_group_regex (c # cs) of
        Some (g, r) \<Rightarrow> rev acc # g # split_math_group [] r
      | None \<Rightarrow> split_math_group (c # acc) cs)"
  by pat_completeness auto
termination
  by (relation "measure (\<lambda>(acc, s). length s)") (auto dest: math_group_regex_shorter)

declare split_math_group.simps [simp del]

fun parts_loop :: "nat \<Rightarrow> string list \<Rightarrow> rich_text list \<Rightarrow> rich_text list" where
  "parts_loop i [] richText = richText"
| "parts_loop i (part # parts) richText =
     parts_loop (Suc i) parts
       (if i mod 2 = 0 then
          (if part \<noteq> [] then richText @ [Text part None None] else richText)
        else richText @ [Equation (trim part)])"

definition processInlineMath :: "string \<Rightarrow> rich_text list" where
  "processInlineMath text = parts_loop 0 (split_math_group [] text) []"

function math_loop_basic :: "string list \<Rightarrow> nat \<Rightarrow> string list \<Rightarrow> nat \<times> string list" where
  "math_loop_basic lines i mathContent =
     (if i < length lines \<and> \<not> endsWith (trim (lines ! i)) ''$$'' then
        math_loop_basic lines (Suc i) (mathContent @ [lines ! i])
      else (i, mathContent))"
  by pat_completeness auto
termination
  by (relation "measure (\<lambda>(lines, i, mathContent). length lines - i)") auto

declare math_loop_basic.simps [simp del]

definition scan_step_basic :: "string list \<Rightarrow> nat \<Rightarrow> block list \<Rightarrow> nat \<times> block list" where
  "scan_step_basic lines i blocks =
     (let line = trim (lines ! i)
      in if startsWith line ''$$'' then
           (let (i', mathContent) = math_loop_basic lines (Suc i) [];
                mathContent' =
                  (if i' < length lines then
                     (let lastLine = trim (replace_first (lines ! i') ''$$'' [])
                      in if lastLine \<noteq> [] then mathContent @ [lastLine] else mathContent)
                   else mathContent)
            in (i', blocks @ [Equation_block (trim (join_lines mathContent'))]))
         else if startsWith line ''#'' then
           (let level = length line - length (regex_remove re_hashes line);
                text = regex_remove re_hashes_space line
            in (i, blocks @ [Heading (heading_block_type level) (processInlineMath text)]))
         else if line \<noteq> [] \<and> \<not> startsWith line ''$$'' then
           (i, blocks @ [Paragraph (processInlineMath line)])
         else if line = [] then
           (i, blocks @ [Paragraph []])
         else (i, blocks))"

lemma math_loop_basic_cursor: "i \<le> fst (math_loop_basic lines i mathContent)"
proof (induction lines i mathContent rule: math_loop_basic.induct)
  case (1 lines i mathContent)
  show ?case
  proof (cases "i < length lines \<and> \<not> endsWith (trim (lines ! i)) ''$$''")
    case True
    with 1 have "Suc i \<le> fst (math_loop_basic lines (Suc i) (mathContent @ [lines ! i]))"
      by simp
    with True show ?thesis
      by (subst math_loop_basic.simps) simp
  next
    case False
    then show ?thesis
      by (subst math_loop_basic.simps) auto
  qed
qed

lemma scan_step_basic_cursor: "i \<le> fst (scan_step_basic lines i blocks)"
proof -
  have "i \<le> fst (math_loop_basic lines (Suc i) [])"
    using math_loop_basic_cursor [of "Suc i" lines "[]"] by simp
  then show ?thesis
    by (simp add: scan_step_basic_def Let_def split_beta)
qed

function scan_loop_basic :: "string list \<Rightarrow> nat \<Rightarrow> block list \<Rightarrow> block list" where
  "scan_loop_basic lines i blocks =
     (if i < length lines then
        (let (i', blocks') = scan_step_basic lines i blocks
         in scan_loop_basic lines (Suc i') blocks')
      else blocks)"
  by pat_completeness auto
termination
proof (relation "measure (\<lambda>(lines, i, blocks). length lines - i)")
  show "wf (measure (\<lambda>(lines, i, blocks). length lines - i))"
    by simp
next
  fix lines :: "string list" and i :: nat and blocks x i' blocks'
  assume "i < length lines" and "x = scan_step_basic lines i blocks" and "(i', blocks') = x"
  then have "i \<le> i'"
    using scan_step_basic_cursor [of i lines blocks] by (metis fst_conv)
  with \<open>i < length lines\<close>
  show "((lines, Suc i', blocks'), lines, i, blocks) \<in> measure (\<lambda>(lines, i, blocks). length lines - i)"
    by simp
qed

declare scan_loop_basic.simps [simp del]

definition parseMarkdownWithMath_basic :: "string \<Rightarrow> block list" where
  "parseMarkdownWithMath_basic markdownContent = scan_loop_basic (split_lines markdownContent) 0 []"

section \<open>Notions used in the statements\<close>

subsection \<open>Lines and constructs\<close>

text \<open>The line that ends a code block, and the line that ends a multi-line equation.\<close>

definition closes_code :: "string \<Rightarrow> bool" where
  "closes_code l \<longleftrightarrow> startsWith (trim l) ''```''"

definition closes_math :: "string \<Rightarrow> bool" where
  "closes_math l \<longleftrightarrow> endsWith (trim l) ''$$''"

text \<open>What the closing line of an equation adds: the text before its last \<open>$$\<close>, trimmed,
  if that is not empty.\<close>

definition last_part :: "string \<Rightarrow> string list" where
  "last_part currentLine =
     (let lastPart =
            trim (substring currentLine 0
                    (case lastIndexOf currentLine ''$$'' of Some k \<Rightarrow> k | None \<Rightarrow> 0))
      in if lastPart \<noteq> [] then [lastPart] else [])"

text \<open>A line on which no construct check of the scanner fires; it may be blank.\<close>

definition plain_line :: "string \<Rightarrow> bool" where
  "plain_line l \<longleftrightarrow>
     (let line = trim l
      in \<not> startsWith line ''$$'' \<and> \<not> startsWith line ''```'' \<and>
         line \<noteq> ''---'' \<and> line \<noteq> ''***'' \<and> line \<noteq> ''___'' \<and>
         \<not> startsWith line ''#'' \<and> \<not> startsWith line ''- '' \<and> \<not> startsWith line ''* '' \<and>
         \<not> regex_test re_number_test line \<and> \<not> startsWith line ''> '')"






subsection \<open>Candidates and segments\<close>

text \<open>The entry of \<^verbatim>\<open>matches\<close> for a match of the pattern \<open>ty\<close> at index \<open>j\<close>.\<close>

definition match_at :: "pattern_type \<Rightarrow> string \<Rightarrow> nat \<Rightarrow> string \<Rightarrow> string option \<Rightarrow> string \<Rightarrow> match" where
  "match_at ty text j g1 g2 r =
     \<lparr>match_start = j,
      match_end = j + length (take (length text - j - length r) (drop j text)),
      match_content = g1,
      match_fullMatch = take (length text - j - length r) (drop j text),
      match_format = pattern_format ty,
      match_type = ty,
      match_url = (case g2 of None \<Rightarrow> None | Some u \<Rightarrow> if u \<noteq> [] then Some u else None)\<rparr>"

text \<open>A candidate has a non-empty content, and a link candidate a non-empty url; the
  other candidates have a format.\<close>

definition candidate_ok :: "match \<Rightarrow> bool" where
  "candidate_ok m \<longleftrightarrow>
     match_content m \<noteq> [] \<and> match_format m = pattern_format (match_type m) \<and>
     (if match_type m = Link then (case match_url m of Some u \<Rightarrow> u \<noteq> [] | None \<Rightarrow> False)
      else match_url m = None)"

text \<open>Two spans touch, as the test in the loop of \<^verbatim>\<open>validMatches\<close> has it; a list of
  spans no two of which touch.\<close>

definition overlap :: "match \<Rightarrow> match \<Rightarrow> bool" where
  "overlap current existing \<longleftrightarrow>
     match_start current < match_end existing \<and> match_end current > match_start existing"

fun disjoint_spans :: "match list \<Rightarrow> bool" where
  "disjoint_spans [] \<longleftrightarrow> True"
| "disjoint_spans (m # ms) \<longleftrightarrow> list_all (\<lambda>x. \<not> overlap x m) ms \<and> disjoint_spans ms"

text \<open>The captured pieces of a split, at the odd indices, are not empty.\<close>

fun odd_nonempty :: "nat \<Rightarrow> string list \<Rightarrow> bool" where
  "odd_nonempty i [] \<longleftrightarrow> True"
| "odd_nonempty i (s # ss) \<longleftrightarrow> (i mod 2 = 0 \<or> s \<noteq> []) \<and> odd_nonempty (Suc i) ss"

text \<open>A segment is not empty: a text has some content, an equation some expression.\<close>

fun nonempty_segment :: "rich_text \<Rightarrow> bool" where
  "nonempty_segment (Text c l a) \<longleftrightarrow> c \<noteq> []"
| "nonempty_segment (Equation e) \<longleftrightarrow> e \<noteq> []"

text \<open>A text segment with a link has some content and a url that is not empty.\<close>

fun valid_link :: "rich_text \<Rightarrow> bool" where
  "valid_link (Text c (Some (Some url)) a) \<longleftrightarrow> c \<noteq> [] \<and> url \<noteq> []"
| "valid_link (Text c (Some None) a) \<longleftrightarrow> False"
| "valid_link (Text c None a) \<longleftrightarrow> True"
| "valid_link (Equation e) \<longleftrightarrow> True"

text \<open>The rest of the link pattern after its first group.\<close>

definition link_tail :: "string \<Rightarrow> (string \<times> string) option" where
  "link_tail t =
     (case lit ''](''  t of
        None \<Rightarrow> None
      | Some t1 \<Rightarrow> lazy_plus (\<lambda>c. c \<noteq> CHR '')'' \<and> c \<noteq> CHR 0x0A) (lit '')'') t1)"

section \<open>Properties of the block scanner\<close>

subsection \<open>Strings and anchored patterns\<close>

lemma startsWith_Cons:
  "startsWith s (c # p) \<longleftrightarrow> (\<exists>t. s = c # t \<and> startsWith t p)"
  by (cases s) (auto simp: startsWith_def)

lemma startsWith_Nil [simp]: "startsWith s []"
  by (simp add: startsWith_def)

lemma startsWith_append: "startsWith s p \<Longrightarrow> s = p @ drop (length p) s"
  by (metis append_take_drop_id startsWith_def)

lemma replace_first_prefix: "startsWith s p \<Longrightarrow> replace_first s p r = r @ drop (length p) s"
  by (cases s) (auto simp: startsWith_def)

lemma greedy_star_total:
  assumes "\<And>t. k t \<noteq> None"
  shows "greedy_star cls k s = Some (takeWhile cls s, the (k (dropWhile cls s)))"
proof (induction s)
  case Nil
  from assms [of "[]"] show ?case by auto
next
  case (Cons c cs)
  from assms [of "c # cs"] Cons show ?case by auto
qed

lemma greedy_plus_total:
  assumes "\<And>t. k t \<noteq> None"
  shows "greedy_plus cls k s =
           (if s \<noteq> [] \<and> cls (hd s) then Some (takeWhile cls s, the (k (dropWhile cls s))) else None)"
  using greedy_star_total [where k = k and cls = cls and s = "tl s", OF assms]
  by (cases s) (auto simp: greedy_plus_def)

lemma re_hashes_eq: "regex_remove re_hashes line = dropWhile (\<lambda>c. c = CHR ''#'') line"
proof -
  have "greedy_plus (\<lambda>c. c = CHR ''#'') Some line =
          (if line \<noteq> [] \<and> hd line = CHR ''#''
           then Some (takeWhile (\<lambda>c. c = CHR ''#'') line, dropWhile (\<lambda>c. c = CHR ''#'') line)
           else None)"
    using greedy_plus_total [where k = Some and cls = "\<lambda>c. c = CHR ''#''" and s = line] by simp
  then show ?thesis
    by (cases line) (auto simp: regex_remove_def re_hashes_def)
qed

lemma re_hashes_space_eq:
  "regex_remove re_hashes_space line =
     (if startsWith line ''#'' then dropWhile is_space (dropWhile (\<lambda>c. c = CHR ''#'') line)
      else line)"
proof -
  have k: "(\<lambda>r. map_option snd (greedy_star is_space Some r)) = (\<lambda>r. Some (dropWhile is_space r))"
    using greedy_star_total [where k = Some and cls = is_space] by auto
  have "greedy_plus (\<lambda>c. c = CHR ''#'') (\<lambda>r. Some (dropWhile is_space r)) line =
          (if line \<noteq> [] \<and> hd line = CHR ''#''
           then Some (takeWhile (\<lambda>c. c = CHR ''#'') line,
                      dropWhile is_space (dropWhile (\<lambda>c. c = CHR ''#'') line))
           else None)"
    using greedy_plus_total [where k = "\<lambda>r. Some (dropWhile is_space r)"
        and cls = "\<lambda>c. c = CHR ''#''" and s = line]
    by simp
  then show ?thesis
    by (cases line) (auto simp: regex_remove_def re_hashes_space_def startsWith_def k)
qed

subsection \<open>The inner loops\<close>

lemma code_loop_eq:
  "code_loop lines i acc =
     (i + length (takeWhile (\<lambda>l. \<not> closes_code l) (drop i lines)),
      acc @ takeWhile (\<lambda>l. \<not> closes_code l) (drop i lines))"
proof (induction lines i acc rule: code_loop.induct)
  case (1 lines i acc)
  show ?case
  proof (cases "i < length lines")
    case False
    then show ?thesis
      by (subst code_loop.simps) simp
  next
    case True
    then have d: "drop i lines = lines ! i # drop (Suc i) lines"
      by (simp add: Cons_nth_drop_Suc)
    show ?thesis
    proof (cases "closes_code (lines ! i)")
      case True
      with d show ?thesis
        by (subst code_loop.simps) (simp add: closes_code_def)
    next
      case False
      with \<open>i < length lines\<close> "1.IH" d show ?thesis
        by (subst code_loop.simps) (simp add: closes_code_def)
    qed
  qed
qed

lemma math_loop_eq:
  "math_loop lines i acc =
     (let body = takeWhile (\<lambda>l. \<not> closes_math l) (drop i lines); j = i + length body
      in (j, acc @ body @ (if j < length lines then last_part (lines ! j) else [])))"
proof (induction lines i acc rule: math_loop.induct)
  case (1 lines i acc)
  show ?case
  proof (cases "i < length lines")
    case False
    then show ?thesis
      by (subst math_loop.simps) simp
  next
    case True
    then have d: "drop i lines = lines ! i # drop (Suc i) lines"
      by (simp add: Cons_nth_drop_Suc)
    show ?thesis
    proof (cases "closes_math (lines ! i)")
      case True
      with \<open>i < length lines\<close> d show ?thesis
        by (subst math_loop.simps) (simp add: closes_math_def last_part_def Let_def)
    next
      case False
      with \<open>i < length lines\<close> "1.IH" d show ?thesis
        by (subst math_loop.simps) (simp add: closes_math_def Let_def)
    qed
  qed
qed

subsection \<open>The outer loop\<close>

lemma scan_loop_step:
  "i < length lines \<Longrightarrow>
     scan_loop lines i blocks =
       scan_loop lines (Suc (fst (scan_step lines i blocks))) (snd (scan_step lines i blocks))"
  by (subst scan_loop.simps) (simp add: split_beta)

lemma scan_loop_done: "length lines \<le> i \<Longrightarrow> scan_loop lines i blocks = blocks"
  by (subst scan_loop.simps) simp

lemma substring_to_end: "substring s n (length s) = drop n s"
  by (simp add: substring_def Let_def min_def max_def)

lemma substring_from_start: "n \<le> length s \<Longrightarrow> substring s 0 n = take n s"
  by (simp add: substring_def Let_def min_def max_def)

lemma scan_step_plain:
  "plain_line (lines ! i) \<Longrightarrow>
     scan_step lines i blocks =
       (i, if trim (lines ! i) \<noteq> [] then blocks @ [Paragraph (processRichText (trim (lines ! i)))]
           else blocks)"
  by (simp add: scan_step_def plain_line_def Let_def)

lemma scan_loop_plain:
  "\<forall>l\<in>set (drop i lines). plain_line l \<Longrightarrow>
     scan_loop lines i blocks =
       blocks @ map (\<lambda>l. Paragraph (processRichText (trim l)))
                  (filter (\<lambda>l. trim l \<noteq> []) (drop i lines))"
proof (induction "length lines - i" arbitrary: i blocks)
  case 0
  then show ?case
    by (simp add: scan_loop_done)
next
  case (Suc n)
  then have i: "i < length lines"
    by simp
  then have d: "drop i lines = lines ! i # drop (Suc i) lines"
    by (simp add: Cons_nth_drop_Suc)
  with Suc.prems have p: "plain_line (lines ! i)" and rest: "\<forall>l\<in>set (drop (Suc i) lines). plain_line l"
    by simp_all
  from Suc.hyps(2) have n: "n = length lines - Suc i"
    by simp
  show ?case
    using Suc.hyps(1) [OF n rest] i
    by (simp add: scan_loop_step scan_step_plain [OF p] d)
qed

lemma startsWith_fence:
  assumes "startsWith line ''```''"
  shows "\<not> startsWith line ''$$''" and "replace_first line ''```'' [] = drop 3 line"
proof -
  from assms obtain t where "line = CHR ''`'' # t"
    by (auto simp: startsWith_Cons)
  then show "\<not> startsWith line ''$$''"
    by (simp add: startsWith_def)
  from replace_first_prefix [OF assms, of "[]"] show "replace_first line ''```'' [] = drop 3 line"
    by (simp add: numeral_3_eq_3)
qed

lemma scan_step_fence:
  assumes "startsWith (trim (lines ! i)) ''```''"
  shows "scan_step lines i blocks =
           (let codeContent = takeWhile (\<lambda>l. \<not> closes_code l) (drop (Suc i) lines);
                rest = trim (drop 3 (trim (lines ! i)))
            in (Suc i + length codeContent,
                blocks @ [Code_block [Text (join_lines codeContent) None None]
                            (if rest = [] then ''plain text'' else rest)]))"
  using assms startsWith_fence [OF assms]
  by (simp add: scan_step_def Let_def code_loop_eq)



lemma scan_loop_plain_prefix:
  "\<forall>l\<in>set ys. plain_line l \<Longrightarrow>
     scan_loop (xs @ ys @ rest) (length xs) blocks =
       scan_loop (xs @ ys @ rest) (length xs + length ys)
         (blocks @ map (\<lambda>l. Paragraph (processRichText (trim l)))
                     (filter (\<lambda>l. trim l \<noteq> []) ys))"
proof (induction ys arbitrary: xs blocks)
  case Nil
  then show ?case by simp
next
  case (Cons y ys)
  let ?lines = "xs @ y # ys @ rest"
  let ?para = "\<lambda>l. Paragraph (processRichText (trim l))"
  have nth: "?lines ! length xs = y"
    by simp
  with Cons.prems have p: "plain_line (?lines ! length xs)"
    by simp
  have step: "scan_step ?lines (length xs) blocks =
                (length xs, if trim y \<noteq> [] then blocks @ [?para y] else blocks)"
    using scan_step_plain [OF p, of blocks] nth by simp
  have ih: "scan_loop ?lines (Suc (length xs)) b =
              scan_loop ?lines (Suc (length xs) + length ys)
                (b @ map ?para (filter (\<lambda>l. trim l \<noteq> []) ys))" for b
    using Cons.IH [of "xs @ [y]" b] Cons.prems by simp
  have "length xs < length ?lines"
    by simp
  from scan_loop_step [OF this, of blocks] step ih show ?case
    by simp
qed

lemma scan_loop_unterminated_fence:
  assumes "i < length lines"
    and "startsWith (trim (lines ! i)) ''```''"
    and "\<forall>l\<in>set (drop (Suc i) lines). \<not> startsWith (trim l) ''```''"
  shows "scan_loop lines i blocks =
           blocks @ [Code_block [Text (join_lines (drop (Suc i) lines)) None None]
                       (let rest = trim (drop 3 (trim (lines ! i)))
                        in if rest = [] then ''plain text'' else rest)]"
proof -
  from assms(3) have tw: "takeWhile (\<lambda>l. \<not> closes_code l) (drop (Suc i) lines) = drop (Suc i) lines"
    by (simp add: closes_code_def)
  have "length lines \<le> Suc (Suc i + length (drop (Suc i) lines))"
    by simp
  from scan_loop_done [OF this] assms(1) show ?thesis
    by (simp add: scan_loop_step scan_step_fence [OF assms(2)] tw Let_def del: length_drop)
qed

section \<open>Properties of the inline tokenizers\<close>

subsection \<open>The candidates of \<^verbatim>\<open>processTextFormatting\<close>\<close>

lemma regex_exec_match:
  "regex_exec ty text i = Some (j, g1, g2, r) \<Longrightarrow>
     pattern_regex ty (if j = 0 then None else Some (text ! (j - 1))) (drop j text) = Some (g1, g2, r)"
proof (induction ty "text" i rule: regex_exec.induct)
  case (1 ty t i)
  let ?m = "pattern_regex ty (if i = 0 then None else Some (t ! (i - 1))) (drop i t)"
  from "1.prems" have i: "i \<le> length t"
    by (subst (asm) regex_exec.simps) (auto split: if_splits)
  show ?case
  proof (cases ?m)
    case None
    with i "1.prems" have "regex_exec ty t (Suc i) = Some (j, g1, g2, r)"
      by (subst (asm) regex_exec.simps) simp
    with "1.IH" [OF _ None] i show ?thesis
      by auto
  next
    case (Some a)
    with i "1.prems" have "?m = Some (g1, g2, r)" and "j = i"
      by (subst (asm) regex_exec.simps; auto)+
    then show ?thesis
      by (cases "i = 0") auto
  qed
qed

lemma find_matches_unfold:
  "find_matches ty text i =
     (case regex_exec ty text i of
        None \<Rightarrow> []
      | Some (j, g1, g2, r) \<Rightarrow>
          match_at ty text j g1 g2 r
            # find_matches ty text (j + length (take (length text - j - length r) (drop j text))))"
  by (subst find_matches.simps) (simp add: match_at_def Let_def split: option.splits)

text \<open>Every entry of \<^verbatim>\<open>matches\<close> comes from a match of its pattern in the text.\<close>

lemma find_matches_all:
  assumes "\<And>j g1 g2 r. j \<le> length text \<Longrightarrow>
             pattern_regex ty (if j = 0 then None else Some (text ! (j - 1))) (drop j text)
               = Some (g1, g2, r) \<Longrightarrow>
             Q (match_at ty text j g1 g2 r)"
  shows "list_all Q (find_matches ty text i)"
proof (induction "Suc (length text) - i" arbitrary: i rule: less_induct)
  case less
  show ?case
  proof (cases "regex_exec ty text i")
    case None
    then show ?thesis
      by (subst find_matches_unfold) simp
  next
    case (Some a)
    then obtain j g1 g2 r where e: "regex_exec ty text i = Some (j, g1, g2, r)"
      by (cases a) auto
    from regex_exec_index [OF e] have j: "i \<le> j" "j \<le> length text" "length r < length text - j"
      by auto
    let ?next = "j + length (take (length text - j - length r) (drop j text))"
    from j have "Suc (length text) - ?next < Suc (length text) - i"
      by auto
    from less [OF this] assms [OF j(2) regex_exec_match [OF e]] e show ?thesis
      by (subst find_matches_unfold) simp
  qed
qed

lemma match_at_simps [simp]:
  "match_start (match_at ty text j g1 g2 r) = j"
  "match_content (match_at ty text j g1 g2 r) = g1"
  "match_type (match_at ty text j g1 g2 r) = ty"
  "match_format (match_at ty text j g1 g2 r) = pattern_format ty"
  "match_url (match_at ty text j g1 g2 r) =
     (case g2 of None \<Rightarrow> None | Some u \<Rightarrow> if u \<noteq> [] then Some u else None)"
  by (simp_all add: match_at_def)

lemma find_matches_ok: "list_all candidate_ok (find_matches ty text i)"
proof (rule find_matches_all)
  fix j g1 g2 r
  assume "pattern_regex ty (if j = 0 then None else Some (text ! (j - 1))) (drop j text)
            = Some (g1, g2, r)"
  from pattern_regex_groups [OF this] show "candidate_ok (match_at ty text j g1 g2 r)"
    by (cases g2) (auto simp: candidate_ok_def)
qed

lemma all_matches_all:
  "(\<And>ty. list_all Q (find_matches ty text 0)) \<Longrightarrow> list_all Q (all_matches text)"
  by (simp add: all_matches_def)

lemma sorted_matches_all: "list_all Q (all_matches text) \<Longrightarrow> list_all Q (sorted_matches text)"
  by (simp add: sorted_matches_def list_all_iff)

lemma remove_overlaps_all:
  "list_all Q validMatches \<Longrightarrow> list_all Q matches \<Longrightarrow>
     list_all Q (remove_overlaps validMatches matches)"
  by (induction matches arbitrary: validMatches) auto

lemma build_parts_all:
  assumes "\<And>c. c \<noteq> [] \<Longrightarrow> P (Text c None None)"
  shows "list_all (\<lambda>m. P (match_part m)) ms \<Longrightarrow> list_all P parts \<Longrightarrow>
           list_all P (snd (build_parts text ms (lastEnd, parts)))"
proof (induction ms arbitrary: lastEnd parts)
  case Nil
  then show ?case by simp
next
  case (Cons m ms)
  then show ?case
    using assms by (simp add: Let_def)
qed

lemma trim_nonempty: "trim s \<noteq> [] \<Longrightarrow> s \<noteq> []"
  by (auto simp: trim_def)

text \<open>What holds of plain text and of the part of every candidate holds of every part
  that \<^verbatim>\<open>processTextFormatting\<close> returns.\<close>

lemma processTextFormatting_all:
  assumes plain: "\<And>c. c \<noteq> [] \<Longrightarrow> P (Text c None None)"
    and cand: "\<And>m. candidate_ok m \<Longrightarrow> P (match_part m)"
  shows "list_all P (processTextFormatting text)"
proof -
  have "list_all candidate_ok (sorted_matches text)"
    by (intro sorted_matches_all all_matches_all find_matches_ok)
  then have "list_all candidate_ok (remove_overlaps [] (sorted_matches text))"
    by (intro remove_overlaps_all) simp_all
  then have "list_all (\<lambda>m. P (match_part m)) (remove_overlaps [] (sorted_matches text))"
    using cand by (simp add: list_all_iff)
  from build_parts_all [where P = P, OF plain this, of "[]" "text" 0]
  have "list_all P (snd (build_parts text (remove_overlaps [] (sorted_matches text)) (0, [])))"
    by simp
  then show ?thesis
    using plain trim_nonempty [of "text"]
    by (auto simp: processTextFormatting_def Let_def split_beta)
qed

subsection \<open>Restoring the placeholders\<close>

lemma restore_segments_all:
  assumes "\<And>c a. c \<noteq> [] \<Longrightarrow> P (Text c None (Some a))"
    and "\<And>e. e \<noteq> [] \<Longrightarrow> P (Equation e)"
  shows "restore_segments mp ann segments richText = Inr out \<Longrightarrow> list_all P richText \<Longrightarrow>
           list_all P out"
proof (induction segments arbitrary: richText)
  case Nil
  then show ?case by simp
next
  case (Cons segment segments)
  show ?case
  proof (cases "startsWith segment ''__MATH_'' \<and> endsWith segment ''__''")
    case True
    with Cons.prems obtain ds where ds: "match_digits segment = Some ds"
      by (auto split: option.splits)
    let ?rt = "if parseInt ds < length mp \<and> mp ! parseInt ds \<noteq> []
               then richText @ [Equation (mp ! parseInt ds)] else richText"
    from True ds Cons.prems(1) have "restore_segments mp ann segments ?rt = Inr out"
      by (simp add: Let_def)
    moreover from Cons.prems(2) assms(2) have "list_all P ?rt"
      by simp
    ultimately show ?thesis
      by (rule Cons.IH)
  next
    case False
    let ?rt = "if segment \<noteq> []
               then richText @ [Text segment None
                      (Some (case ann of Some a \<Rightarrow> a | None \<Rightarrow> Annotations False False False))]
               else richText"
    from False Cons.prems(1) have "restore_segments mp ann segments ?rt = Inr out"
      by (auto split: if_splits)
    moreover from Cons.prems(2) assms(1) have "list_all P ?rt"
      by simp
    ultimately show ?thesis
      by (rule Cons.IH)
  qed
qed

lemma restore_parts_all:
  assumes "\<And>c a. c \<noteq> [] \<Longrightarrow> P (Text c None (Some a))"
    and "\<And>e. e \<noteq> [] \<Longrightarrow> P (Equation e)"
  shows "restore_parts mp textParts richText = Inr out \<Longrightarrow> list_all P textParts \<Longrightarrow>
           list_all P richText \<Longrightarrow> list_all P out"
proof (induction mp textParts richText rule: restore_parts.induct)
  case (1 mp richText)
  then show ?case by simp
next
  case (2 mp c l a textParts richText)
  show ?case
  proof (cases "includes_str c ''__MATH_''")
    case True
    with "2.prems"(1) obtain rt where rt: "restore_segments mp a (split_placeholders [] c) richText = Inr rt"
      and out: "restore_parts mp textParts rt = Inr out"
      by (auto split: sum.splits)
    from restore_segments_all [where P = P, OF assms rt "2.prems"(3)] have "list_all P rt" .
    with "2.IH"(1) [OF True rt out] "2.prems"(2) show ?thesis
      by simp
  next
    case False
    with "2.IH"(2) [OF False] "2.prems" show ?thesis
      by simp
  qed
next
  case (3 mp e textParts richText)
  then show ?case by simp
qed

text \<open>What holds of every text that is not empty, of every equation that is not empty and
  of the part of every candidate holds of every segment that \<^verbatim>\<open>processRichText\<close> returns.\<close>

lemma processRichText_fmt_all:
  assumes "\<And>c. c \<noteq> [] \<Longrightarrow> P (Text c None None)"
    and "\<And>c a. c \<noteq> [] \<Longrightarrow> P (Text c None (Some a))"
    and "\<And>e. e \<noteq> [] \<Longrightarrow> P (Equation e)"
    and "\<And>m. candidate_ok m \<Longrightarrow> P (match_part m)"
    and "processRichText_fmt text = Inr out"
  shows "list_all P out"
proof -
  obtain tempText mp where r: "replace_math [] text = (tempText, mp)"
    by (cases "replace_math [] text")
  with assms(5) have "restore_parts mp (processTextFormatting tempText) [] = Inr out"
    by (simp add: processRichText_fmt_def)
  from restore_parts_all [where P = P, OF assms(2,3) this
      processTextFormatting_all [where P = P, OF assms(1,4)]]
  show ?thesis
    by simp
qed

subsection \<open>The segments of the tokenizer without formatting\<close>

lemma odd_nonempty_parity: "odd_nonempty (Suc (Suc i)) ss = odd_nonempty i ss"
  by (induction ss arbitrary: i) auto

lemma inline_math_regex_nonempty: "inline_math_regex s = Some (m, r) \<Longrightarrow> m \<noteq> []"
  by (auto simp: inline_math_regex_def split: option.splits)

lemma split_inline_math_odd: "odd_nonempty 0 (split_inline_math acc s)"
proof (induction acc s rule: split_inline_math.induct)
  case (1 acc)
  then show ?case
    by (subst split_inline_math.simps) simp
next
  case (2 acc c cs)
  show ?case
  proof (cases "inline_math_regex (c # cs)")
    case None
    with 2 show ?thesis
      by (subst split_inline_math.simps) simp
  next
    case (Some a)
    then obtain m r where a: "a = (m, r)"
      by (cases a)
    with Some 2 have "odd_nonempty 0 (split_inline_math [] r)"
      by simp
    with Some a inline_math_regex_nonempty [of "c # cs" m r] show ?thesis
      by (subst split_inline_math.simps) (simp add: odd_nonempty_parity)
  qed
qed

lemma segments_loop_nonempty:
  "odd_nonempty i segments \<Longrightarrow> list_all nonempty_segment richText \<Longrightarrow>
     list_all nonempty_segment (segments_loop i segments richText)"
proof (induction segments arbitrary: i richText)
  case Nil
  then show ?case by simp
next
  case (Cons seg segments)
  from Cons.prems have "odd_nonempty (Suc i) segments" and "i mod 2 = 0 \<or> seg \<noteq> []"
    by simp_all
  with Cons.prems(2) show ?case
    by (auto simp: Let_def intro!: Cons.IH)
qed

lemma match_part_nonempty: "candidate_ok m \<Longrightarrow> nonempty_segment (match_part m)"
  by (simp add: candidate_ok_def match_part_def)

lemma match_part_valid_link: "candidate_ok m \<Longrightarrow> valid_link (match_part m)"
  by (auto simp: candidate_ok_def match_part_def split: option.splits)

lemma pattern_regex_Link:
  "pattern_regex Link prev s =
     (case lit ''['' s of
        None \<Rightarrow> None
      | Some s1 \<Rightarrow>
          map_option (\<lambda>(w, u, r). (w, Some u, r)) (lazy_plus (\<lambda>c. c \<noteq> CHR '']'') link_tail s1))"
proof -
  have h: "link_tail =
          (\<lambda>t. case lit ''](''  t of
                 None \<Rightarrow> None
               | Some t1 \<Rightarrow> lazy_plus (\<lambda>c. c \<noteq> CHR '')'' \<and> c \<noteq> CHR 0x0A) (lit '')'') t1)"
    by (rule ext) (simp add: link_tail_def)
  show ?thesis
    by (subst h) simp
qed

lemma link_tail_other: "x \<noteq> CHR '']'' \<Longrightarrow> link_tail (x # xs) = None"
  by (simp add: link_tail_def lit_def startsWith_def)

lemma link_tail_empty_url: "link_tail ('']()'' @ s) = None"
  by (simp add: link_tail_def lit_def startsWith_def lazy_plus_def)

lemma lazy_star_empty_url:
  "list_all (\<lambda>c. c \<noteq> CHR '']'') w \<Longrightarrow>
     lazy_star (\<lambda>c. c \<noteq> CHR '']'') link_tail (w @ '']()'' @ s) = None"
proof (induction w)
  case Nil
  show ?case
    using link_tail_empty_url [of s] by simp
next
  case (Cons x w)
  then show ?case
    by (simp add: link_tail_other)
qed

subsection \<open>The selection of the candidates\<close>

lemma overlap_sym: "overlap a b \<longleftrightarrow> overlap b a"
  by (auto simp: overlap_def)

lemma hasOverlap_iff: "hasOverlap validMatches current \<longleftrightarrow> list_ex (overlap current) validMatches"
proof -
  have "overlap current =
          (\<lambda>existing. match_start current < match_end existing \<and>
                      match_end current > match_start existing)"
    by (rule ext) (simp add: overlap_def)
  then show ?thesis
    by (simp add: hasOverlap_def)
qed

lemma hasOverlap_append:
  "hasOverlap (xs @ ys) m \<longleftrightarrow> hasOverlap xs m \<or> hasOverlap ys m"
  by (simp add: hasOverlap_iff)

lemma disjoint_spans_snoc:
  "disjoint_spans (acc @ [m]) \<longleftrightarrow> disjoint_spans acc \<and> \<not> hasOverlap acc m"
proof (induction acc)
  case Nil
  then show ?case
    by (simp add: hasOverlap_iff)
next
  case (Cons e acc)
  then show ?case
    by (auto simp: hasOverlap_iff overlap_sym [of m e])
qed

lemma remove_overlaps_prefix: "\<exists>ext. remove_overlaps acc ms = acc @ ext"
proof (induction ms arbitrary: acc)
  case Nil
  then show ?case by simp
next
  case (Cons m ms)
  from Cons [of "acc @ [m]"] Cons [of acc] show ?case
    by auto
qed

lemma remove_overlaps_disjoint:
  "disjoint_spans acc \<Longrightarrow> disjoint_spans (remove_overlaps acc ms)"
  by (induction ms arbitrary: acc) (simp_all add: disjoint_spans_snoc)

lemma remove_overlaps_keeps_overlap:
  "hasOverlap acc m \<Longrightarrow> hasOverlap (remove_overlaps acc ms) m"
  using remove_overlaps_prefix [of acc ms] by (auto simp: hasOverlap_append)

lemma remove_overlaps_keeps_member:
  "m \<in> set acc \<Longrightarrow> m \<in> set (remove_overlaps acc ms)"
  using remove_overlaps_prefix [of acc ms] by auto

lemma remove_overlaps_decides:
  "m \<in> set ms \<Longrightarrow>
     m \<in> set (remove_overlaps acc ms) \<or> hasOverlap (remove_overlaps acc ms) m"
proof (induction ms arbitrary: acc)
  case Nil
  then show ?case by simp
next
  case (Cons x ms)
  show ?case
  proof (cases "m = x")
    case True
    show ?thesis
    proof (cases "hasOverlap acc x")
      case True
      with \<open>m = x\<close> remove_overlaps_keeps_overlap [of acc x ms] show ?thesis
        by simp
    next
      case False
      with \<open>m = x\<close> remove_overlaps_keeps_member [of x "acc @ [x]" ms] show ?thesis
        by simp
    qed
  next
    case False
    with Cons.prems have "m \<in> set ms"
      by simp
    from Cons.IH [OF this] show ?thesis
      by simp
  qed
qed

lemma remove_overlaps_first: "hd (remove_overlaps [] (m # ms)) = m"
  using remove_overlaps_prefix [of "[m]" ms] by (auto simp: hasOverlap_def)

lemma bold_content_no_asterisk:
  "list_all (\<lambda>m. CHR ''*'' \<notin> set (match_content m)) (find_matches Bold text i)"
proof (rule find_matches_all)
  fix j g1 g2 r
  assume "pattern_regex Bold (if j = 0 then None else Some (text ! (j - 1))) (drop j text)
            = Some (g1, g2, r)"
  then obtain s1 where "lazy_plus (\<lambda>c. c \<noteq> CHR ''*'' \<and> c \<noteq> CHR 0x0A) (lit ''**'') s1 = Some (g1, r)"
    by (auto split: option.splits)
  from lazy_plusD [OF this] show "CHR ''*'' \<notin> set (match_content (match_at Bold text j g1 g2 r))"
    by (auto simp: list_all_iff)
qed

section \<open>The claims\<close>

text \<open>
  C1, as amended.  In the text \<open>**a*b*c**\<close> the bold pattern has no match, since the
  content of a bold match holds no asterisk: the one candidate is the italic \<open>*b*\<close>, it
  is accepted, and the tokenizer returns the plain text \<open>**a\<close>, the italic \<open>b\<close> and the
  plain text \<open>c**\<close>.  The selection itself is greedy, leftmost and without overlap: the
  candidates are sorted by their start; the first is accepted; every candidate is
  accepted or touches an accepted one; no two accepted candidates touch.
\<close>

theorem C1_leftmost_selection:
  "processTextFormatting ''**a*b*c**'' =
     [Text ''**a'' None None, Text ''b'' None (Some (Annotations False True False)),
      Text ''c**'' None None] \<and>
   list_all (\<lambda>m. CHR ''*'' \<notin> set (match_content m)) (find_matches Bold text 0) \<and>
   sorted (map match_start (sorted_matches text)) \<and>
   disjoint_spans (remove_overlaps [] ms) \<and>
   (\<forall>m\<in>set ms. m \<in> set (remove_overlaps [] ms) \<or> hasOverlap (remove_overlaps [] ms) m) \<and>
   (ms \<noteq> [] \<longrightarrow> hd (remove_overlaps [] ms) = hd ms)"
proof (intro conjI ballI impI)
  show "processTextFormatting ''**a*b*c**'' =
     [Text ''**a'' None None, Text ''b'' None (Some (Annotations False True False)),
      Text ''c**'' None None]"
    by code_simp
next
  show "list_all (\<lambda>m. CHR ''*'' \<notin> set (match_content m)) (find_matches Bold text 0)"
    by (rule bold_content_no_asterisk)
next
  show "sorted (map match_start (sorted_matches text))"
    by (simp add: sorted_matches_def)
next
  show "disjoint_spans (remove_overlaps [] ms)"
    by (rule remove_overlaps_disjoint) simp
next
  fix m
  assume "m \<in> set ms"
  then show "m \<in> set (remove_overlaps [] ms) \<or> hasOverlap (remove_overlaps [] ms) m"
    by (rule remove_overlaps_decides)
next
  assume "ms \<noteq> []"
  then show "hd (remove_overlaps [] ms) = hd ms"
    by (cases ms) (simp_all add: remove_overlaps_first del: remove_overlaps.simps)
qed

theorem C1_leftmost_selection_witness:
  "map match_type (sorted_matches ''**a`b**c`'') = [Bold, Code] \<and>
   sorted_matches ''**a`b**c`'' \<noteq> [] \<and>
   hd (remove_overlaps [] (sorted_matches ''**a`b**c`'')) = hd (sorted_matches ''**a`b**c`'') \<and>
   sorted_matches ''**a`b**c`'' ! 1 \<in> set (sorted_matches ''**a`b**c`'') \<and>
   sorted_matches ''**a`b**c`'' ! 1 \<notin> set (remove_overlaps [] (sorted_matches ''**a`b**c`'')) \<and>
   hasOverlap (remove_overlaps [] (sorted_matches ''**a`b**c`'')) (sorted_matches ''**a`b**c`'' ! 1) \<and>
   processTextFormatting ''**a`b**c`'' =
     [Text ''a`b'' None (Some (Annotations True False False)), Text ''c`'' None None]"
proof -
  let ?ms = "sorted_matches ''**a`b**c`''"
  have a: "map match_type ?ms = [Bold, Code]"
    by code_simp
  then have b: "?ms \<noteq> []"
    by auto
  have c: "?ms ! 1 \<in> set ?ms"
    by code_simp
  have d: "?ms ! 1 \<notin> set (remove_overlaps [] ?ms)"
    by code_simp
  have e: "processTextFormatting ''**a`b**c`'' =
     [Text ''a`b'' None (Some (Annotations True False False)), Text ''c`'' None None]"
    by code_simp
  from C1_leftmost_selection [of "''**a`b**c`''" ?ms] a b c d e show ?thesis
    by blast
qed

text \<open>C1 as the specification words it fails: the text has no bold candidate, the italic
  candidate is the one accepted, and an italic segment is produced.\<close>

theorem C1_bold_counterexample:
  "find_matches Bold ''**a*b*c**'' 0 = [] \<and>
   map match_type (remove_overlaps [] (sorted_matches ''**a*b*c**'')) = [Italic] \<and>
   map match_content (remove_overlaps [] (sorted_matches ''**a*b*c**'')) = [''b''] \<and>
   processTextFormatting ''**a*b*c**'' ! 1 = Text ''b'' None (Some (Annotations False True False)) \<and>
   processRichText_fmt ''**a*b*c**'' =
     Inr [Text ''**a'' None None, Text ''b'' None (Some (Annotations False True False)),
          Text ''c**'' None None]"
  by code_simp

text \<open>
  C2, as amended.  A link whose content or whose url is empty is never emitted.  The link
  pattern asks for one character at least in each of its two groups: it has no match that
  starts at the opening bracket of a construct whose content is empty, nor of one whose
  url is empty and whose content holds no closing bracket.  Every link segment that the
  tokenizer emits has a content and a url that are not empty.  Nothing is said of other
  matches that start elsewhere and take characters of such a construct.
\<close>

theorem C2_links_nonempty:
  "(\<forall>out. processRichText_fmt text = Inr out \<longrightarrow> list_all valid_link out) \<and>
   list_all valid_link (processTextFormatting text) \<and>
   pattern_regex Link prev (''[]'' @ s) = None \<and>
   (CHR '']'' \<notin> set c \<longrightarrow> pattern_regex Link prev (''['' @ c @ '']()'' @ s) = None)"
proof (intro conjI allI impI)
  fix out
  assume "processRichText_fmt text = Inr out"
  then show "list_all valid_link out"
    by (rule processRichText_fmt_all [where P = valid_link, rotated 4])
      (simp_all add: match_part_valid_link)
next
  show "list_all valid_link (processTextFormatting text)"
    by (rule processTextFormatting_all) (simp_all add: match_part_valid_link)
next
  show "pattern_regex Link prev (''[]'' @ s) = None"
    by (simp add: lit_def startsWith_def lazy_plus_def)
next
  assume c: "CHR '']'' \<notin> set c"
  then have w: "list_all (\<lambda>c. c \<noteq> CHR '']'') c"
    by (auto simp: list_all_iff)
  have l: "lit ''['' (''['' @ c @ '']()'' @ s) = Some (c @ '']()'' @ s)"
    by (simp add: lit_def startsWith_def)
  have "lazy_plus (\<lambda>c. c \<noteq> CHR '']'') link_tail (c @ '']()'' @ s) = None"
  proof (cases c)
    case Nil
    then show ?thesis
      by (simp add: lazy_plus_def)
  next
    case (Cons x w')
    with w lazy_star_empty_url [of w' s] show ?thesis
      by (simp add: lazy_plus_def)
  qed
  with l show "pattern_regex Link prev (''['' @ c @ '']()'' @ s) = None"
    unfolding pattern_regex_Link by simp
qed

theorem C2_links_nonempty_witness:
  "processRichText_fmt ''see [text](http://x)'' =
     Inr [Text ''see '' None None, Text ''text'' (Some (Some ''http://x'')) None] \<and>
   list_all valid_link [Text ''see '' None None, Text ''text'' (Some (Some ''http://x'')) None] \<and>
   CHR '']'' \<notin> set ''text'' \<and>
   pattern_regex Link None (''['' @ ''text'' @ '']()'' @ '' end'') = None"
proof -
  have a: "processRichText_fmt ''see [text](http://x)'' =
     Inr [Text ''see '' None None, Text ''text'' (Some (Some ''http://x'')) None]"
    by code_simp
  have b: "CHR '']'' \<notin> set ''text''"
    by simp
  from C2_links_nonempty [of "''see [text](http://x)''" None "'' end''" "''text''"] a b
  show ?thesis
    by blast
qed

text \<open>C2 as the specification words it fails: on these two texts, a link construct with
  an empty url and one with an empty content, the tokenizer returns one plain text and no
  link segment.\<close>

theorem C2_empty_link_counterexample:
  "processRichText_fmt ''[text]()'' = Inr [Text ''[text]()'' None None] \<and>
   processRichText_fmt ''[](http://x)'' = Inr [Text ''[](http://x)'' None None] \<and>
   processTextFormatting ''[text]()'' = [Text ''[text]()'' None None] \<and>
   processTextFormatting ''[](http://x)'' = [Text ''[](http://x)'' None None]"
  by code_simp

text \<open>
  C3.  For every document whose lines are all plain (no construct check fires on them),
  \<^verbatim>\<open>parseMarkdownWithMath\<close> of \<^verbatim>\<open>upload-notion.js\<close> returns exactly one paragraph for each
  line that is not blank, in the order of the lines; the paragraph holds the rich text
  of the trimmed line.
\<close>

theorem C3_plain_paragraphs:
  assumes "\<forall>l\<in>set (split_lines D). plain_line l"
  shows "parseMarkdownWithMath D =
           map (\<lambda>l. Paragraph (processRichText (trim l)))
             (filter (\<lambda>l. trim l \<noteq> []) (split_lines D))"
  using scan_loop_plain [of 0 "split_lines D" "[]"] assms
  by (simp add: parseMarkdownWithMath_def)

theorem C3_plain_paragraphs_witness:
  "list_all plain_line (split_lines ''one\<newline>\<newline> two '') \<and>
   parseMarkdownWithMath ''one\<newline>\<newline> two '' =
     [Paragraph [Text ''one'' None None], Paragraph [Text ''two'' None None]]"
proof -
  have p: "\<forall>l\<in>set (split_lines ''one\<newline>\<newline> two ''). plain_line l"
    by code_simp
  have "map (\<lambda>l. Paragraph (processRichText (trim l)))
          (filter (\<lambda>l. trim l \<noteq> []) (split_lines ''one\<newline>\<newline> two '')) =
        [Paragraph [Text ''one'' None None], Paragraph [Text ''two'' None None]]"
    by code_simp
  with p C3_plain_paragraphs [OF p] show ?thesis
    by (simp add: list_all_iff)
qed

text \<open>
  C4.  The document of the three lines \<open>$$\<close>, \<open>E=mc^2\<close>, \<open>$$\<close> gives exactly one equation
  block with the expression \<open>E=mc^2\<close>, in \<^verbatim>\<open>upload-notion.js\<close> and in the revision without code blocks.
  In general, in \<^verbatim>\<open>upload-notion.js\<close>, when the trimmed line at the cursor starts with
  \<open>$$\<close> and what follows the \<open>$$\<close> does not end with \<open>$$\<close>, the rows of the equation are
  the trimmed rest of the opening line (if not empty), the raw lines up to the first line
  whose trimmed form ends with \<open>$$\<close>, and the trimmed text before the last \<open>$$\<close> of that
  line (if not empty); the rows are joined with newlines and trimmed, and the cursor is
  left on the closing line.
\<close>

theorem C4_display_math_equation:
  "parseMarkdownWithMath ''$$\<newline>E=mc^2\<newline>$$'' = [Equation_block ''E=mc^2''] \<and>
   parseMarkdownWithMath_basic ''$$\<newline>E=mc^2\<newline>$$'' = [Equation_block ''E=mc^2''] \<and>
   (\<forall>pre opener body closer post blocks.
      startsWith (trim opener) ''$$'' \<and> \<not> endsWith (drop 2 (trim opener)) ''$$'' \<and>
      (\<forall>l\<in>set body. \<not> closes_math l) \<and> closes_math closer \<longrightarrow>
      scan_step (pre @ opener # body @ closer # post) (length pre) blocks =
        (let first = trim (drop 2 (trim opener));
             rows = (if first \<noteq> [] then [first] else []) @ body @ last_part closer
         in (length pre + length body + 1,
             if rows \<noteq> [] then blocks @ [Equation_block (trim (join_lines rows))] else blocks)))"
proof (intro conjI allI impI)
  show "parseMarkdownWithMath ''$$\<newline>E=mc^2\<newline>$$'' = [Equation_block ''E=mc^2'']"
    by code_simp
next
  show "parseMarkdownWithMath_basic ''$$\<newline>E=mc^2\<newline>$$'' = [Equation_block ''E=mc^2'']"
    by code_simp
next
  fix pre body post :: "string list" and opener closer :: string
    and blocks :: "block list"
  assume a: "startsWith (trim opener) ''$$'' \<and> \<not> endsWith (drop 2 (trim opener)) ''$$'' \<and>
      (\<forall>l\<in>set body. \<not> closes_math l) \<and> closes_math closer"
  let ?lines = "pre @ opener # body @ closer # post"
  have tw: "takeWhile (\<lambda>l. \<not> closes_math l) (body @ closer # post) = body"
    using a by (simp add: takeWhile_tail)
  have nth: "?lines ! Suc (length pre + length body) = closer"
    by (simp add: nth_append)
  have m: "math_loop ?lines (Suc (length pre)) acc =
             (Suc (length pre + length body), acc @ body @ last_part closer)" for acc
    by (simp add: math_loop_eq tw nth Let_def)
  show "scan_step ?lines (length pre) blocks =
        (let first = trim (drop 2 (trim opener));
             rows = (if first \<noteq> [] then [first] else []) @ body @ last_part closer
         in (length pre + length body + 1,
             if rows \<noteq> [] then blocks @ [Equation_block (trim (join_lines rows))] else blocks))"
    using a by (simp add: scan_step_def Let_def substring_to_end m)
qed

theorem C4_display_math_equation_witness:
  "startsWith (trim ''$$'') ''$$'' \<and> \<not> endsWith (drop 2 (trim ''$$'')) ''$$'' \<and>
   \<not> closes_math ''E=mc^2'' \<and> closes_math ''$$'' \<and>
   scan_step [''$$'', ''E=mc^2'', ''$$''] 0 [] = (2, [Equation_block ''E=mc^2''])"
proof -
  have h: "startsWith (trim ''$$'') ''$$'' \<and> \<not> endsWith (drop 2 (trim ''$$'')) ''$$'' \<and>
      (\<forall>l\<in>set [''E=mc^2'']. \<not> closes_math l) \<and> closes_math ''$$''"
    by code_simp
  have r: "(let first = trim (drop 2 (trim ''$$''));
                rows = (if first \<noteq> [] then [first] else []) @ [''E=mc^2''] @ last_part ''$$''
            in (length ([] :: string list) + length [''E=mc^2''] + 1,
                if rows \<noteq> [] then [] @ [Equation_block (trim (join_lines rows))] else [])) =
           (2, [Equation_block ''E=mc^2''])"
    by code_simp
  from C4_display_math_equation
  have "scan_step ([] @ ''$$'' # [''E=mc^2''] @ ''$$'' # []) (length ([] :: string list)) [] =
        (let first = trim (drop 2 (trim ''$$''));
             rows = (if first \<noteq> [] then [first] else []) @ [''E=mc^2''] @ last_part ''$$''
         in (length ([] :: string list) + length [''E=mc^2''] + 1,
             if rows \<noteq> [] then [] @ [Equation_block (trim (join_lines rows))] else []))"
    using h by blast
  with r h show ?thesis
    by simp
qed

text \<open>
  C5.  When the outer loop stands on a line whose trimmed form starts with three
  backquotes and no later line does, \<^verbatim>\<open>parseMarkdownWithMath\<close> of \<^verbatim>\<open>upload-notion.js\<close>
  returns: to the blocks emitted so far it adds one code block whose content is all
  the lines after the opener, joined with newlines.  So a document of plain lines, an
  opener and lines none of which closes the block gives the paragraphs of the plain
  lines and that code block.  The scanner has no failing branch: nothing is raised.
\<close>

theorem C5_unterminated_code_fence:
  "(i < length lines \<and> startsWith (trim (lines ! i)) ''```'' \<and>
    (\<forall>l\<in>set (drop (Suc i) lines). \<not> startsWith (trim l) ''```'') \<longrightarrow>
    scan_loop lines i blocks =
      blocks @ [Code_block [Text (join_lines (drop (Suc i) lines)) None None]
                  (let rest = trim (drop 3 (trim (lines ! i)))
                   in if rest = [] then ''plain text'' else rest)]) \<and>
   (split_lines D = pre @ opener # after \<and> (\<forall>l\<in>set pre. plain_line l) \<and>
    startsWith (trim opener) ''```'' \<and> (\<forall>l\<in>set after. \<not> startsWith (trim l) ''```'') \<longrightarrow>
    parseMarkdownWithMath D =
      map (\<lambda>l. Paragraph (processRichText (trim l))) (filter (\<lambda>l. trim l \<noteq> []) pre) @
      [Code_block [Text (join_lines after) None None]
         (let rest = trim (drop 3 (trim opener))
          in if rest = [] then ''plain text'' else rest)])"
proof (intro conjI impI)
  assume "i < length lines \<and> startsWith (trim (lines ! i)) ''```'' \<and>
    (\<forall>l\<in>set (drop (Suc i) lines). \<not> startsWith (trim l) ''```'')"
  then show "scan_loop lines i blocks =
      blocks @ [Code_block [Text (join_lines (drop (Suc i) lines)) None None]
                  (let rest = trim (drop 3 (trim (lines ! i)))
                   in if rest = [] then ''plain text'' else rest)]"
    by (simp add: scan_loop_unterminated_fence)
next
  assume a: "split_lines D = pre @ opener # after \<and> (\<forall>l\<in>set pre. plain_line l) \<and>
    startsWith (trim opener) ''```'' \<and> (\<forall>l\<in>set after. \<not> startsWith (trim l) ''```'')"
  let ?lines = "pre @ opener # after"
  have "scan_loop ?lines (length pre) blocks =
          blocks @ [Code_block [Text (join_lines after) None None]
                      (let rest = trim (drop 3 (trim opener))
                       in if rest = [] then ''plain text'' else rest)]" for blocks
    using a scan_loop_unterminated_fence [of "length pre" ?lines blocks] by simp
  with a scan_loop_plain_prefix [of pre "[]" "opener # after" "[]"]
  show "parseMarkdownWithMath D =
      map (\<lambda>l. Paragraph (processRichText (trim l))) (filter (\<lambda>l. trim l \<noteq> []) pre) @
      [Code_block [Text (join_lines after) None None]
         (let rest = trim (drop 3 (trim opener))
          in if rest = [] then ''plain text'' else rest)]"
    by (simp add: parseMarkdownWithMath_def)
qed

theorem C5_unterminated_code_fence_witness:
  "split_lines ''intro\<newline>```js\<newline>x = 1\<newline>\<newline>y'' =
     [''intro''] @ ''```js'' # [''x = 1'', [], ''y''] \<and>
   list_all plain_line [''intro''] \<and>
   startsWith (trim ''```js'') ''```'' \<and>
   list_all (\<lambda>l. \<not> startsWith (trim l) ''```'') [''x = 1'', [], ''y''] \<and>
   parseMarkdownWithMath ''intro\<newline>```js\<newline>x = 1\<newline>\<newline>y'' =
     [Paragraph [Text ''intro'' None None],
      Code_block [Text ''x = 1\<newline>\<newline>y'' None None] ''js'']"
proof -
  let ?D = "''intro\<newline>```js\<newline>x = 1\<newline>\<newline>y''"
  have a: "split_lines ?D = [''intro''] @ ''```js'' # [''x = 1'', [], ''y'']"
    by code_simp
  have b: "\<forall>l\<in>set [''intro'']. plain_line l"
    by code_simp
  have c: "startsWith (trim ''```js'') ''```''"
    by code_simp
  have d: "\<forall>l\<in>set [''x = 1'', [], ''y'']. \<not> startsWith (trim l) ''```''"
    by code_simp
  have r: "map (\<lambda>l. Paragraph (processRichText (trim l))) (filter (\<lambda>l. trim l \<noteq> []) [''intro'']) @
             [Code_block [Text (join_lines [''x = 1'', [], ''y'']) None None]
                (let rest = trim (drop 3 (trim ''```js''))
                 in if rest = [] then ''plain text'' else rest)] =
           [Paragraph [Text ''intro'' None None],
            Code_block [Text ''x = 1\<newline>\<newline>y'' None None] ''js'']"
    by code_simp
  from C5_unterminated_code_fence [where D = ?D and pre = "[''intro'']" and opener = "''```js''"
      and after = "[''x = 1'', [], ''y'']"] a b c d
  have "parseMarkdownWithMath ?D =
          map (\<lambda>l. Paragraph (processRichText (trim l))) (filter (\<lambda>l. trim l \<noteq> []) [''intro'']) @
             [Code_block [Text (join_lines [''x = 1'', [], ''y'']) None None]
                (let rest = trim (drop 3 (trim ''```js''))
                 in if rest = [] then ''plain text'' else rest)]"
    by blast
  with r a b c d show ?thesis
    by (simp only: list_all_iff simp_thms)
qed



text \<open>
  C7.  When the trimmed line at the cursor starts with \<open>#\<close>, the step emits one heading
  and leaves the cursor: with \<open>n\<close> the number of \<open>#\<close> at the start of the line, the
  heading is \<open>heading_1\<close> for \<open>n = 1\<close>, \<open>heading_2\<close> for \<open>n = 2\<close> and \<open>heading_3\<close> for every
  \<open>n\<close> from 3 on, and its text is the rich text of the line without these \<open>#\<close> and the
  white space after them.
\<close>

theorem C7_heading_level:
  assumes "startsWith (trim (lines ! i)) ''#''"
  shows "(let line = trim (lines ! i);
              n = length (takeWhile (\<lambda>c. c = CHR ''#'') line);
              text = dropWhile is_space (dropWhile (\<lambda>c. c = CHR ''#'') line)
          in 1 \<le> n \<and>
             scan_step lines i blocks =
               (i, blocks @ [Heading (if n = 1 then heading_1
                                      else if n = 2 then heading_2 else heading_3)
                               (processRichText text)]))"
proof -
  let ?line = "trim (lines ! i)"
  let ?P = "\<lambda>c. c = CHR ''#''"
  from assms obtain t where t: "?line = CHR ''#'' # t"
    by (auto simp: startsWith_Cons)
  then have guards: "\<not> startsWith ?line ''$$''" "\<not> startsWith ?line ''```''"
    "?line \<noteq> ''---''" "?line \<noteq> ''***''" "?line \<noteq> ''___''"
    by (simp_all add: startsWith_def)
  have "length ?line = length (takeWhile ?P ?line) + length (dropWhile ?P ?line)"
    by (metis length_append takeWhile_dropWhile_id)
  then have level: "length ?line - length (dropWhile ?P ?line) = length (takeWhile ?P ?line)"
    by simp
  have n: "1 \<le> length (takeWhile ?P ?line)"
    by (simp add: t)
  show ?thesis
    using assms guards n
    by (simp add: scan_step_def Let_def re_hashes_eq re_hashes_space_eq level
          heading_block_type_def)
qed

theorem C7_heading_level_witness:
  "startsWith (trim ([''  #### Deep  title ''] ! 0)) ''#'' \<and>
   scan_step [''  #### Deep  title ''] 0 [] =
     (0, [Heading heading_3 [Text ''Deep  title'' None None]])"
proof -
  have a: "startsWith (trim ([''  #### Deep  title ''] ! 0)) ''#''"
    by code_simp
  have r: "(let line = trim ([''  #### Deep  title ''] ! 0);
                n = length (takeWhile (\<lambda>c. c = CHR ''#'') line);
                text = dropWhile is_space (dropWhile (\<lambda>c. c = CHR ''#'') line)
            in (0::nat, [] @ [Heading (if n = 1 then heading_1
                                  else if n = 2 then heading_2 else heading_3)
                           (processRichText text)])) =
           (0, [Heading heading_3 [Text ''Deep  title'' None None]])"
    by code_simp
  from C7_heading_level [OF a, of "[]"] r a show ?thesis
    by (simp add: Let_def)
qed

text \<open>
  C8.  When the trimmed line at the cursor starts with three backquotes, the step emits
  one code block whose language is the rest of that line after the three backquotes,
  trimmed, and the string \<open>plain text\<close> when that rest is empty.  The content is the
  lines up to the next line whose trimmed form starts with three backquotes.
\<close>

theorem C8_code_language:
  assumes "startsWith (trim (lines ! i)) ''```''"
  shows "(let rest = trim (drop 3 (trim (lines ! i)));
              codeContent = takeWhile (\<lambda>l. \<not> startsWith (trim l) ''```'') (drop (Suc i) lines)
          in scan_step lines i blocks =
               (Suc i + length codeContent,
                blocks @ [Code_block [Text (join_lines codeContent) None None]
                            (if rest = [] then ''plain text'' else rest)]))"
  using scan_step_fence [OF assms, of blocks]
  by (simp add: Let_def closes_code_def)

theorem C8_code_language_witness:
  "startsWith (trim ([''``` python '', ''x = 1'', ''```'', ''```'', ''```''] ! 0)) ''```'' \<and>
   startsWith (trim ([''``` python '', ''x = 1'', ''```'', ''```'', ''```''] ! 3)) ''```'' \<and>
   scan_step [''``` python '', ''x = 1'', ''```'', ''```'', ''```''] 0 [] =
     (2, [Code_block [Text ''x = 1'' None None] ''python'']) \<and>
   scan_step [''``` python '', ''x = 1'', ''```'', ''```'', ''```''] 3 [] =
     (4, [Code_block [Text [] None None] ''plain text''])"
proof -
  let ?lines = "[''``` python '', ''x = 1'', ''```'', ''```'', ''```'']"
  have a: "startsWith (trim (?lines ! 0)) ''```''" and b: "startsWith (trim (?lines ! 3)) ''```''"
    by code_simp+
  have ra: "(let rest = trim (drop 3 (trim (?lines ! 0)));
                 codeContent = takeWhile (\<lambda>l. \<not> startsWith (trim l) ''```'') (drop (Suc 0) ?lines)
             in (Suc 0 + length codeContent,
                 [] @ [Code_block [Text (join_lines codeContent) None None]
                         (if rest = [] then ''plain text'' else rest)])) =
            (2, [Code_block [Text ''x = 1'' None None] ''python''])"
    by code_simp
  have rb: "(let rest = trim (drop 3 (trim (?lines ! 3)));
                 codeContent = takeWhile (\<lambda>l. \<not> startsWith (trim l) ''```'') (drop (Suc 3) ?lines)
             in (Suc 3 + length codeContent,
                 [] @ [Code_block [Text (join_lines codeContent) None None]
                         (if rest = [] then ''plain text'' else rest)])) =
            (4, [Code_block [Text [] None None] ''plain text''])"
    by code_simp
  from C8_code_language [OF a, of "[]"] C8_code_language [OF b, of "[]"] ra rb a b
  show ?thesis
    by (simp add: Let_def)
qed

text \<open>
  C9.  The cursor of the outer loop grows in every iteration, in every revision
  (\<open>scan_step_cursor\<close>, \<open>scan_step_fmt_cursor\<close>, \<open>scan_step_basic_cursor\<close>), and every loop
  of the tokenizers ends: these are the termination proofs of the definitions above.  The conversion of
  \<^verbatim>\<open>upload-notion.js\<close> has no failing branch.  The conversion with inline formatting is
  not total: on a text that starts with \<open>__MATH_\<close> and ends with \<open>__\<close> but holds no digit,
  \<^verbatim>\<open>segment.match(/\d+/)\<close> is \<^verbatim>\<open>null\<close> and reading its element 0 raises a \<^verbatim>\<open>TypeError\<close>.
\<close>

theorem C9_placeholder_type_error:
  "processRichText_fmt ''__MATH__'' = Inl TypeError \<and>
   parseMarkdownWithMath_fmt ''__MATH__'' = Inl TypeError \<and>
   parseMarkdownWithMath_fmt ''# Title\<newline>The macro __MATH_x__'' = Inr
     [Heading heading_1 [Text ''Title'' None None],
      Paragraph [Text ''The macro __MATH_x__'' None (Some (Annotations False False False))]] \<and>
   parseMarkdownWithMath_fmt ''# Title\<newline>__MATH_x__'' = Inl TypeError \<and>
   parseMarkdownWithMath ''# Title\<newline>__MATH_x__'' =
     [Heading heading_1 [Text ''Title'' None None], Paragraph [Text ''__MATH_x__'' None None]]"
  by code_simp

text \<open>
  C10.  Every segment that \<^verbatim>\<open>processRichText\<close> returns is not empty, in
  \<^verbatim>\<open>upload-notion.js\<close> and in the revision with inline formatting: a text segment has
  some content and an equation segment some expression.  The revision with inline
  formatting is meant where it returns a result.
\<close>

theorem C10_segments_nonempty:
  "list_all nonempty_segment (processRichText text) \<and>
   (\<forall>out. processRichText_fmt text = Inr out \<longrightarrow> list_all nonempty_segment out)"
proof (intro conjI allI impI)
  show "list_all nonempty_segment (processRichText text)"
    unfolding processRichText_def
    by (rule segments_loop_nonempty [OF split_inline_math_odd]) simp
next
  fix out
  assume "processRichText_fmt text = Inr out"
  then show "list_all nonempty_segment out"
    by (rule processRichText_fmt_all [where P = nonempty_segment, rotated 4])
      (simp_all add: match_part_nonempty)
qed

theorem C10_segments_nonempty_witness:
  "processRichText_fmt ''a$ x $**b**$ $'' =
     Inr [Text ''a'' None (Some (Annotations False False False)), Equation ''x'',
          Text ''b'' None (Some (Annotations True False False))] \<and>
   list_all nonempty_segment
     [Text ''a'' None (Some (Annotations False False False)), Equation ''x'',
      Text ''b'' None (Some (Annotations True False False))] \<and>
   list_all nonempty_segment (processRichText ''a$ x $**b**$ $'')"
proof -
  have "processRichText_fmt ''a$ x $**b**$ $'' =
     Inr [Text ''a'' None (Some (Annotations False False False)), Equation ''x'',
          Text ''b'' None (Some (Annotations True False False))]"
    by code_simp
  with C10_segments_nonempty [of "''a$ x $**b**$ $''"] show ?thesis
    by blast
qed

end
